theory Spec2Isabelle
  imports
    Main
    "HOL-Library.Word"
    "HOL-Library.Char_ord"
    "HOL-Library.List_Lexorder"
    "HOL-Library.Product_Lexorder"
    "HOL-Library.Multiset"
begin

section \<open>Identifiers, records and the functions the ballot box takes from elsewhere\<close>

text \<open>
  \<^verbatim>\<open>digest_type\<close> is a 256-bit hash, \<^verbatim>\<open>address\<close> a 160-bit one and a public key
  33 bytes. All three are compared as unsigned numbers, strings lexicographically by
  byte (the order of \<^verbatim>\<open>std::string\<close>).
\<close>

type_synonym digest_type = "256 word"
type_synonym address = "160 word"
type_synonym public_key_type = "264 word"

datatype error = AlreadyOpen | NotOpen | NotFound | KeyRecoveryFailed

text \<open>
  Modelled from the spec: the record types \<^verbatim>\<open>signed_voter_decision\<close>, \<^verbatim>\<open>ballot\<close>,
  \<^verbatim>\<open>contest\<close> and \<^verbatim>\<open>contestant\<close> are declared in a header that is not part of the
  sources. They carry the fields \<^verbatim>\<open>ballot_box.cpp\<close> reads, and one field for the rest of
  the content (the signature, a title, a description).
\<close>

record signed_voter_decision =
  contest_id :: digest_type
  ballot_id :: digest_type
  write_in_names :: "string list"
  voter_signature :: "8 word list"

record ballot =
  title :: string
  contests :: "digest_type list"

record contestant =
  name :: string
  contestant_description :: string

record contest =
  contest_description :: string
  tags :: "(string \<times> string) list"
  contestants :: "contestant list"

text \<open>A default-constructed \<^verbatim>\<open>signed_voter_decision\<close>: zero digests, nothing else.\<close>

definition default_decision :: signed_voter_decision where
  "default_decision =
     \<lparr>contest_id = 0, ballot_id = 0, write_in_names = [], voter_signature = []\<rparr>"

text \<open>
  The hashing and key functions the file calls and does not define are parameters:
  \<^verbatim>\<open>signed_voter_decision::digest()\<close>, \<^verbatim>\<open>signed_voter_decision::voter_public_key()\<close>
  (recovering a key from a signature can throw), the conversion of a public key to
  an \<^verbatim>\<open>address\<close>, \<^verbatim>\<open>ballot::id()\<close> and \<^verbatim>\<open>contest::id()\<close>.
\<close>

record params =
  decision_digest :: "signed_voter_decision \<Rightarrow> digest_type"
  voter_public_key :: "signed_voter_decision \<Rightarrow> error + public_key_type"
  address_of_key :: "public_key_type \<Rightarrow> address"
  ballot_id_of :: "ballot \<Rightarrow> digest_type"
  contest_id_of :: "contest \<Rightarrow> digest_type"

section \<open>The durable record store\<close>

text \<open>
  Modelled from the spec: \<^verbatim>\<open>bts::db::level_map\<close> is not part of the sources. The spec's
  contract (section 4.1): \<^verbatim>\<open>open\<close> fails if already open, \<^verbatim>\<open>close\<close> fails if not
  open, \<^verbatim>\<open>store\<close> upserts, \<^verbatim>\<open>fetch\<close> fails with NotFound if the id is absent,
  \<^verbatim>\<open>remove\<close> deletes (a missing id is not an error), iteration yields the pairs in
  ascending key order. What the store holds outlives \<^verbatim>\<open>close\<close>: the field \<open>disk\<close> maps
  a directory to its pairs, \<open>opened_at\<close> is the directory of an open store.
\<close>

record 'v level_map =
  opened_at :: "string option"
  disk :: "string \<Rightarrow> (digest_type \<times> 'v) list"

fun upsert :: "digest_type \<Rightarrow> 'v \<Rightarrow> (digest_type \<times> 'v) list \<Rightarrow> (digest_type \<times> 'v) list" where
  "upsert k v [] = [(k, v)]"
| "upsert k v (e # es) =
     (if k < fst e then (k, v) # e # es
      else if k = fst e then (k, v) # es
      else e # upsert k v es)"

definition lm_open :: "string \<Rightarrow> 'v level_map \<Rightarrow> error + 'v level_map" where
  "lm_open dir db =
     (case opened_at db of
        Some _ \<Rightarrow> Inl AlreadyOpen
      | None \<Rightarrow> Inr (db\<lparr>opened_at := Some dir\<rparr>))"

definition lm_close :: "'v level_map \<Rightarrow> error + 'v level_map" where
  "lm_close db =
     (case opened_at db of
        None \<Rightarrow> Inl NotOpen
      | Some _ \<Rightarrow> Inr (db\<lparr>opened_at := None\<rparr>))"

definition lm_store :: "digest_type \<Rightarrow> 'v \<Rightarrow> 'v level_map \<Rightarrow> error + 'v level_map" where
  "lm_store k v db =
     (case opened_at db of
        None \<Rightarrow> Inl NotOpen
      | Some dir \<Rightarrow> Inr (db\<lparr>disk := (disk db)(dir := upsert k v (disk db dir))\<rparr>))"

definition lm_fetch :: "digest_type \<Rightarrow> 'v level_map \<Rightarrow> error + 'v" where
  "lm_fetch k db =
     (case opened_at db of
        None \<Rightarrow> Inl NotOpen
      | Some dir \<Rightarrow>
          (case map_of (disk db dir) k of
             None \<Rightarrow> Inl NotFound
           | Some v \<Rightarrow> Inr v))"

definition lm_remove :: "digest_type \<Rightarrow> 'v level_map \<Rightarrow> error + 'v level_map" where
  "lm_remove k db =
     (case opened_at db of
        None \<Rightarrow> Inl NotOpen
      | Some dir \<Rightarrow>
          Inr (db\<lparr>disk := (disk db)(dir := filter (\<lambda>e. fst e \<noteq> k) (disk db dir))\<rparr>))"

text \<open>\<^verbatim>\<open>begin()\<close> and the walk to the end: the pairs of the open store, in key order.\<close>

definition lm_iterate :: "'v level_map \<Rightarrow> error + (digest_type \<times> 'v) list" where
  "lm_iterate db =
     (case opened_at db of
        None \<Rightarrow> Inl NotOpen
      | Some dir \<Rightarrow> Inr (disk db dir))"

section \<open>The in-memory indices\<close>

record decision_storage_record = signed_voter_decision +
  voter_key :: public_key_type

text \<open>
  The constructor \<^verbatim>\<open>decision_storage_record(const signed_voter_decision& = ...){}\<close> has
  an empty body and no initialiser for its base: the base is default-constructed
  whatever the argument is, and \<^verbatim>\<open>voter_key\<close> is the key of that default base.
\<close>

definition decision_storage_record_ctor ::
  "params \<Rightarrow> signed_voter_decision \<Rightarrow> error + decision_storage_record" where
  "decision_storage_record_ctor P decision =
     (case voter_public_key P default_decision of
        Inl e \<Rightarrow> Inl e
      | Inr k \<Rightarrow>
          Inr \<lparr>contest_id = contest_id default_decision,
               ballot_id = ballot_id default_decision,
               write_in_names = write_in_names default_decision,
               voter_signature = voter_signature default_decision,
               voter_key = k\<rparr>)"

text \<open>Passing a \<^verbatim>\<open>decision_storage_record\<close> where its base is expected keeps the base.\<close>

definition as_signed_voter_decision :: "decision_storage_record \<Rightarrow> signed_voter_decision" where
  "as_signed_voter_decision r =
     \<lparr>contest_id = contest_id r, ballot_id = ballot_id r,
      write_in_names = write_in_names r, voter_signature = voter_signature r\<rparr>"

record decision_index_record =
  ix_id :: digest_type
  ix_voter :: address
  ix_contest_id :: digest_type
  ix_write_in_names :: "string list"
  ix_ballot_id :: digest_type

definition decision_index_record_ctor ::
  "params \<Rightarrow> digest_type \<Rightarrow> decision_storage_record \<Rightarrow> decision_index_record" where
  "decision_index_record_ctor P i s =
     \<lparr>ix_id = i,
      ix_voter = address_of_key P (voter_key s),
      ix_contest_id = contest_id s,
      ix_write_in_names = write_in_names s,
      ix_ballot_id = ballot_id s\<rparr>"

record contest_tags_index_record =
  tag_key :: string
  tag_value :: string
  tag_contest_id :: digest_type

text \<open>
  \<^verbatim>\<open>decision_index\<close> is a multi-index container, \<^verbatim>\<open>hashed_unique\<close> by id: an insert
  whose id is already there is refused. Its records are kept in the order they came;
  the order of a hashed index means nothing.
\<close>

definition decision_index_insert ::
  "decision_index_record \<Rightarrow> decision_index_record list \<Rightarrow> decision_index_record list" where
  "decision_index_insert r idx =
     (if ix_id r \<in> set (map ix_id idx) then idx else idx @ [r])"

text \<open>
  An ordered container (\<^verbatim>\<open>std::multimap\<close>, \<^verbatim>\<open>ordered_non_unique\<close>) is the list of its
  elements in key order; an iterator is the rest of the list from its position, the
  end iterator the empty list. \<^verbatim>\<open>insert\<close> puts an element after its equals.
\<close>

fun ordered_insert :: "('a \<Rightarrow> 'k::linorder) \<Rightarrow> 'a \<Rightarrow> 'a list \<Rightarrow> 'a list" where
  "ordered_insert f e [] = [e]"
| "ordered_insert f e (x # xs) =
     (if f e < f x then e # x # xs else x # ordered_insert f e xs)"

definition lower_bound :: "('a \<Rightarrow> 'k::linorder) \<Rightarrow> 'k \<Rightarrow> 'a list \<Rightarrow> 'a list" where
  "lower_bound f k idx = dropWhile (\<lambda>x. f x < k) idx"

definition upper_bound :: "('a \<Rightarrow> 'k::linorder) \<Rightarrow> 'k \<Rightarrow> 'a list \<Rightarrow> 'a list" where
  "upper_bound f k idx = dropWhile (\<lambda>x. \<not> k < f x) idx"

text \<open>The elements from \<open>lower_bound\<close> up to \<open>upper_bound\<close>.\<close>

definition equal_range :: "('a \<Rightarrow> 'k::linorder) \<Rightarrow> 'k \<Rightarrow> 'a list \<Rightarrow> 'a list" where
  "equal_range f k idx = takeWhile (\<lambda>x. \<not> k < f x) (lower_bound f k idx)"

text \<open>A hashed index: the range of a key is the elements that have it.\<close>

definition hashed_equal_range :: "('a \<Rightarrow> 'k) \<Rightarrow> 'k \<Rightarrow> 'a list \<Rightarrow> 'a list" where
  "hashed_equal_range f k idx = filter (\<lambda>x. f x = k) idx"

text \<open>The key of the tag index: the tag's key, then its value.\<close>

definition by_tags :: "contest_tags_index_record \<Rightarrow> string \<times> string" where
  "by_tags r = (tag_key r, tag_value r)"

section \<open>The ballot box\<close>

record ballot_box =
  decision_db :: "signed_voter_decision level_map"
  decision_index :: "decision_index_record list"
  write_in_index :: "(string \<times> digest_type) list"
  ballot_db :: "ballot level_map"
  ballot_by_contest_index :: "(digest_type \<times> digest_type) list"
  contest_db :: "contest level_map"
  contest_tags_index :: "contest_tags_index_record list"
  contest_by_contestant_index :: "(string \<times> digest_type) list"
  databases_open :: bool

text \<open>
  A new \<^verbatim>\<open>ballot_box\<close>: no index entries, nothing open. The three arguments are what
  the directories of the machine hold for each kind of record.
\<close>

definition new_ballot_box ::
  "(string \<Rightarrow> (digest_type \<times> signed_voter_decision) list) \<Rightarrow>
   (string \<Rightarrow> (digest_type \<times> ballot) list) \<Rightarrow>
   (string \<Rightarrow> (digest_type \<times> contest) list) \<Rightarrow> ballot_box" where
  "new_ballot_box dd bd cd =
     \<lparr>decision_db = \<lparr>opened_at = None, disk = dd\<rparr>,
      decision_index = [],
      write_in_index = [],
      ballot_db = \<lparr>opened_at = None, disk = bd\<rparr>,
      ballot_by_contest_index = [],
      contest_db = \<lparr>opened_at = None, disk = cd\<rparr>,
      contest_tags_index = [],
      contest_by_contestant_index = [],
      databases_open = False\<rparr>"

subsection \<open>update_index\<close>

definition update_index_decision ::
  "params \<Rightarrow> digest_type \<Rightarrow> decision_storage_record \<Rightarrow> ballot_box \<Rightarrow> ballot_box" where
  "update_index_decision P i storage_record s =
     s\<lparr>decision_index :=
         decision_index_insert (decision_index_record_ctor P i storage_record) (decision_index s),
       write_in_index :=
         foldl (\<lambda>idx write_in. ordered_insert fst (write_in, i) idx)
           (write_in_index s) (write_in_names storage_record)\<rparr>"

definition update_index_ballot :: "digest_type \<Rightarrow> ballot \<Rightarrow> ballot_box \<Rightarrow> ballot_box" where
  "update_index_ballot i ballot_record s =
     s\<lparr>ballot_by_contest_index :=
         foldl (\<lambda>idx c. ordered_insert fst (c, i) idx)
           (ballot_by_contest_index s) (contests ballot_record)\<rparr>"

definition update_index_contest :: "digest_type \<Rightarrow> contest \<Rightarrow> ballot_box \<Rightarrow> ballot_box" where
  "update_index_contest i contest_record s =
     s\<lparr>contest_by_contestant_index :=
         foldl (\<lambda>idx c. ordered_insert fst (name c, i) idx)
           (contest_by_contestant_index s) (contestants contest_record),
       contest_tags_index :=
         foldl (\<lambda>idx tag_pair.
                  ordered_insert by_tags
                    \<lparr>tag_key = fst tag_pair, tag_value = snd tag_pair, tag_contest_id = i\<rparr> idx)
           (contest_tags_index s) (tags contest_record)\<rparr>"

subsection \<open>store_record\<close>

text \<open>
  A member function that throws leaves the object as it was at the throw: an
  operation returns the error, if any, and the state.
\<close>

definition store_record_decision ::
  "params \<Rightarrow> signed_voter_decision \<Rightarrow> ballot_box \<Rightarrow> error option \<times> ballot_box" where
  "store_record_decision P decision s =
     (let i = decision_digest P decision in
      case decision_storage_record_ctor P decision of
        Inl e \<Rightarrow> (Some e, s)
      | Inr storage_record \<Rightarrow>
          (case lm_store i (as_signed_voter_decision storage_record) (decision_db s) of
             Inl e \<Rightarrow> (Some e, s)
           | Inr db \<Rightarrow> (None, update_index_decision P i storage_record (s\<lparr>decision_db := db\<rparr>))))"

definition store_record_ballot ::
  "params \<Rightarrow> ballot \<Rightarrow> ballot_box \<Rightarrow> error option \<times> ballot_box" where
  "store_record_ballot P b s =
     (let i = ballot_id_of P b in
      case lm_store i b (ballot_db s) of
        Inl e \<Rightarrow> (Some e, s)
      | Inr db \<Rightarrow> (None, update_index_ballot i b (s\<lparr>ballot_db := db\<rparr>)))"

definition store_record_contest ::
  "params \<Rightarrow> contest \<Rightarrow> ballot_box \<Rightarrow> error option \<times> ballot_box" where
  "store_record_contest P c s =
     (let i = contest_id_of P c in
      case lm_store i c (contest_db s) of
        Inl e \<Rightarrow> (Some e, s)
      | Inr db \<Rightarrow> (None, update_index_contest i c (s\<lparr>contest_db := db\<rparr>)))"

subsection \<open>open, clear, close of \<^verbatim>\<open>ballot_box_impl\<close>\<close>

text \<open>A loop over a sequence whose body can throw: it stops at the first error.\<close>

fun for_each :: "('a \<Rightarrow> 's \<Rightarrow> error option \<times> 's) \<Rightarrow> 'a list \<Rightarrow> 's \<Rightarrow> error option \<times> 's" where
  "for_each body [] s = (None, s)"
| "for_each body (x # xs) s =
     (case body x s of
        (Some e, s') \<Rightarrow> (Some e, s')
      | (None, s') \<Rightarrow> for_each body xs s')"

definition and_then ::
  "('s \<Rightarrow> error option \<times> 's) \<Rightarrow> ('s \<Rightarrow> error option \<times> 's) \<Rightarrow> 's \<Rightarrow> error option \<times> 's" where
  "and_then f g s =
     (case f s of
        (Some e, s') \<Rightarrow> (Some e, s')
      | (None, s') \<Rightarrow> g s')"

text \<open>
  The loop body \<^verbatim>\<open>update_index(itr.key(), itr.value())\<close> on \<^verbatim>\<open>decision_db\<close>: the value
  is a \<^verbatim>\<open>signed_voter_decision\<close>, converted by the constructor above.
\<close>

definition reindex_decision ::
  "params \<Rightarrow> digest_type \<times> signed_voter_decision \<Rightarrow> ballot_box \<Rightarrow> error option \<times> ballot_box" where
  "reindex_decision P kv s =
     (case decision_storage_record_ctor P (snd kv) of
        Inl e \<Rightarrow> (Some e, s)
      | Inr storage_record \<Rightarrow> (None, update_index_decision P (fst kv) storage_record s))"

definition open_decision_db :: "params \<Rightarrow> string \<Rightarrow> ballot_box \<Rightarrow> error option \<times> ballot_box" where
  "open_decision_db P data_dir s =
     (case lm_open (data_dir @ ''/decision_db'') (decision_db s) of
        Inl e \<Rightarrow> (Some e, s)
      | Inr db \<Rightarrow>
          (case lm_iterate db of
             Inl e \<Rightarrow> (Some e, s\<lparr>decision_db := db\<rparr>)
           | Inr kvs \<Rightarrow> for_each (reindex_decision P) kvs (s\<lparr>decision_db := db\<rparr>)))"

definition open_ballot_db :: "string \<Rightarrow> ballot_box \<Rightarrow> error option \<times> ballot_box" where
  "open_ballot_db data_dir s =
     (case lm_open (data_dir @ ''/ballot_db'') (ballot_db s) of
        Inl e \<Rightarrow> (Some e, s)
      | Inr db \<Rightarrow>
          (case lm_iterate db of
             Inl e \<Rightarrow> (Some e, s\<lparr>ballot_db := db\<rparr>)
           | Inr kvs \<Rightarrow>
               for_each (\<lambda>kv t. (None, update_index_ballot (fst kv) (snd kv) t)) kvs
                 (s\<lparr>ballot_db := db\<rparr>)))"

definition open_contest_db :: "string \<Rightarrow> ballot_box \<Rightarrow> error option \<times> ballot_box" where
  "open_contest_db data_dir s =
     (case lm_open (data_dir @ ''/contest_db'') (contest_db s) of
        Inl e \<Rightarrow> (Some e, s)
      | Inr db \<Rightarrow>
          (case lm_iterate db of
             Inl e \<Rightarrow> (Some e, s\<lparr>contest_db := db\<rparr>)
           | Inr kvs \<Rightarrow>
               for_each (\<lambda>kv t. (None, update_index_contest (fst kv) (snd kv) t)) kvs
                 (s\<lparr>contest_db := db\<rparr>)))"

definition open_impl :: "params \<Rightarrow> string \<Rightarrow> ballot_box \<Rightarrow> error option \<times> ballot_box" where
  "open_impl P data_dir s =
     (if databases_open s then (Some AlreadyOpen, s)
      else
        and_then (open_decision_db P data_dir)
          (and_then (open_ballot_db data_dir)
             (and_then (open_contest_db data_dir)
                (\<lambda>t. (None, t\<lparr>databases_open := True\<rparr>)))) s)"

definition wipe_decision_db :: "ballot_box \<Rightarrow> error option \<times> ballot_box" where
  "wipe_decision_db s =
     (case lm_iterate (decision_db s) of
        Inl e \<Rightarrow> (Some e, s)
      | Inr kvs \<Rightarrow>
          for_each (\<lambda>kv t. case lm_remove (fst kv) (decision_db t) of
                              Inl e \<Rightarrow> (Some e, t)
                            | Inr db \<Rightarrow> (None, t\<lparr>decision_db := db\<rparr>)) kvs s)"

definition wipe_ballot_db :: "ballot_box \<Rightarrow> error option \<times> ballot_box" where
  "wipe_ballot_db s =
     (case lm_iterate (ballot_db s) of
        Inl e \<Rightarrow> (Some e, s)
      | Inr kvs \<Rightarrow>
          for_each (\<lambda>kv t. case lm_remove (fst kv) (ballot_db t) of
                              Inl e \<Rightarrow> (Some e, t)
                            | Inr db \<Rightarrow> (None, t\<lparr>ballot_db := db\<rparr>)) kvs s)"

definition wipe_contest_db :: "ballot_box \<Rightarrow> error option \<times> ballot_box" where
  "wipe_contest_db s =
     (case lm_iterate (contest_db s) of
        Inl e \<Rightarrow> (Some e, s)
      | Inr kvs \<Rightarrow>
          for_each (\<lambda>kv t. case lm_remove (fst kv) (contest_db t) of
                              Inl e \<Rightarrow> (Some e, t)
                            | Inr db \<Rightarrow> (None, t\<lparr>contest_db := db\<rparr>)) kvs s)"

definition clear_indices :: "ballot_box \<Rightarrow> ballot_box" where
  "clear_indices s =
     s\<lparr>decision_index := [],
       write_in_index := [],
       ballot_by_contest_index := [],
       contest_by_contestant_index := [],
       contest_tags_index := []\<rparr>"

definition clear_impl :: "ballot_box \<Rightarrow> error option \<times> ballot_box" where
  "clear_impl s =
     and_then
       (\<lambda>t. if databases_open t
            then and_then wipe_decision_db (and_then wipe_ballot_db wipe_contest_db) t
            else (None, t))
       (\<lambda>t. (None, clear_indices t)) s"

definition close_db ::
  "(ballot_box \<Rightarrow> 'v level_map) \<Rightarrow> ('v level_map \<Rightarrow> ballot_box \<Rightarrow> ballot_box) \<Rightarrow>
   ballot_box \<Rightarrow> error option \<times> ballot_box" where
  "close_db get put s =
     (case lm_close (get s) of
        Inl e \<Rightarrow> (Some e, s)
      | Inr db \<Rightarrow> (None, put db s))"

definition close_impl :: "ballot_box \<Rightarrow> error option \<times> ballot_box" where
  "close_impl s =
     (if \<not> databases_open s then (Some NotOpen, s)
      else
        and_then (close_db decision_db (\<lambda>db t. t\<lparr>decision_db := db\<rparr>))
          (and_then (close_db ballot_db (\<lambda>db t. t\<lparr>ballot_db := db\<rparr>))
             (and_then (close_db contest_db (\<lambda>db t. t\<lparr>contest_db := db\<rparr>))
                clear_impl))
          (s\<lparr>databases_open := False\<rparr>))"

subsection \<open>Queries of \<^verbatim>\<open>ballot_box_impl\<close>\<close>

definition get_decisions_by_key ::
  "(decision_index_record \<Rightarrow> 'k) \<Rightarrow> 'k \<Rightarrow> ballot_box \<Rightarrow> digest_type list" where
  "get_decisions_by_key index k s = map ix_id (hashed_equal_range index k (decision_index s))"

definition get_decisions_by_voter :: "address \<Rightarrow> ballot_box \<Rightarrow> digest_type list" where
  "get_decisions_by_voter voter s = get_decisions_by_key ix_voter voter s"

definition get_decisions_by_contest :: "digest_type \<Rightarrow> ballot_box \<Rightarrow> digest_type list" where
  "get_decisions_by_contest c s = get_decisions_by_key ix_contest_id c s"

definition get_decisions_by_ballot :: "digest_type \<Rightarrow> ballot_box \<Rightarrow> digest_type list" where
  "get_decisions_by_ballot b s = get_decisions_by_key ix_ballot_id b s"

text \<open>
  The loop of \<^verbatim>\<open>get_all_write_ins\<close>: \<open>itr\<close> starts at \<^verbatim>\<open>begin()\<close>, each round appends
  \<^verbatim>\<open>itr->first\<close> and moves to \<^verbatim>\<open>write_in_index.upper_bound(itr->first)\<close>, a search of
  the whole container. Not returning is \<open>None\<close>.
\<close>

partial_function (option) all_write_ins_loop ::
  "(string \<times> digest_type) list \<Rightarrow> (string \<times> digest_type) list \<Rightarrow> string list \<Rightarrow>
   string list option" where
  "all_write_ins_loop idx itr results =
     (case itr of
        [] \<Rightarrow> Some results
      | e # _ \<Rightarrow> all_write_ins_loop idx (upper_bound fst (fst e) idx) (results @ [fst e]))"

declare all_write_ins_loop.simps [code]

definition get_all_write_ins :: "ballot_box \<Rightarrow> string list option" where
  "get_all_write_ins s = all_write_ins_loop (write_in_index s) (write_in_index s) []"

definition get_decisions_with_write_in :: "string \<Rightarrow> ballot_box \<Rightarrow> digest_type list" where
  "get_decisions_with_write_in write_in_name s =
     map snd (equal_range fst write_in_name (write_in_index s))"

definition get_ballots_by_contest :: "digest_type \<Rightarrow> ballot_box \<Rightarrow> digest_type list" where
  "get_ballots_by_contest c s = map snd (equal_range fst c (ballot_by_contest_index s))"

text \<open>
  The loop of \<^verbatim>\<open>get_values_by_tag\<close>: from \<^verbatim>\<open>lower_bound(key)\<close> until the iterator is
  \<^verbatim>\<open>upper_bound(key)\<close>, each round appends \<^verbatim>\<open>itr->value\<close> and moves to the upper bound
  of \<^verbatim>\<open>(itr->key, itr->value)\<close>. A search by the key alone compares the first
  component only. Reading through the end iterator has no result.
\<close>

partial_function (option) values_by_tag_loop ::
  "contest_tags_index_record list \<Rightarrow> string \<Rightarrow> contest_tags_index_record list \<Rightarrow>
   string list \<Rightarrow> string list option" where
  "values_by_tag_loop idx k itr results =
     (if itr = upper_bound tag_key k idx then Some results
      else
        (case itr of
           [] \<Rightarrow> None
         | r # _ \<Rightarrow>
             values_by_tag_loop idx k (upper_bound by_tags (tag_key r, tag_value r) idx)
               (results @ [tag_value r])))"

declare values_by_tag_loop.simps [code]

definition get_values_by_tag :: "string \<Rightarrow> ballot_box \<Rightarrow> string list option" where
  "get_values_by_tag k s =
     values_by_tag_loop (contest_tags_index s) k
       (lower_bound tag_key k (contest_tags_index s)) []"

definition get_contests_by_tags :: "string \<Rightarrow> string \<Rightarrow> ballot_box \<Rightarrow> digest_type list" where
  "get_contests_by_tags k v s =
     (let range = equal_range by_tags (k, v) (contest_tags_index s);
          range = (if v = [] then equal_range tag_key k (contest_tags_index s) else range)
      in map tag_contest_id range)"

definition get_contests_by_contestant :: "string \<Rightarrow> ballot_box \<Rightarrow> digest_type list" where
  "get_contests_by_contestant c s =
     map snd (equal_range fst c (contest_by_contestant_index s))"

subsection \<open>The public \<^verbatim>\<open>ballot_box\<close>\<close>

text \<open>
  Each member function of \<^verbatim>\<open>ballot_box\<close> forwards to \<^verbatim>\<open>ballot_box_impl\<close>; the queries
  above are used as they are. \<^verbatim>\<open>ballot_box::close\<close> is the exception: its body is
  \<^verbatim>\<open>my->decision_db.close()\<close>, not \<^verbatim>\<open>my->close()\<close>.
\<close>

definition ballot_box_open :: "params \<Rightarrow> string \<Rightarrow> ballot_box \<Rightarrow> error option \<times> ballot_box" where
  "ballot_box_open P data_dir s = open_impl P data_dir s"

definition is_open :: "ballot_box \<Rightarrow> bool" where
  "is_open s = databases_open s"

definition ballot_box_clear :: "ballot_box \<Rightarrow> error option \<times> ballot_box" where
  "ballot_box_clear s = clear_impl s"

definition ballot_box_close :: "ballot_box \<Rightarrow> error option \<times> ballot_box" where
  "ballot_box_close s = close_db decision_db (\<lambda>db t. t\<lparr>decision_db := db\<rparr>) s"

definition store_new_decision ::
  "params \<Rightarrow> signed_voter_decision \<Rightarrow> ballot_box \<Rightarrow> error option \<times> ballot_box" where
  "store_new_decision P decision s = store_record_decision P decision s"

definition get_decision :: "digest_type \<Rightarrow> ballot_box \<Rightarrow> error + signed_voter_decision" where
  "get_decision i s = lm_fetch i (decision_db s)"

definition store_ballot :: "params \<Rightarrow> ballot \<Rightarrow> ballot_box \<Rightarrow> error option \<times> ballot_box" where
  "store_ballot P b s = store_record_ballot P b s"

definition get_ballot :: "digest_type \<Rightarrow> ballot_box \<Rightarrow> error + ballot" where
  "get_ballot i s = lm_fetch i (ballot_db s)"

definition store_contest :: "params \<Rightarrow> contest \<Rightarrow> ballot_box \<Rightarrow> error option \<times> ballot_box" where
  "store_contest P c s = store_record_contest P c s"

definition get_contest :: "digest_type \<Rightarrow> ballot_box \<Rightarrow> error + contest" where
  "get_contest i s = lm_fetch i (contest_db s)"

text \<open>
  The calls that change a ballot box, and the states a caller can bring one to,
  starting from a new one.
\<close>

datatype call =
  Open string
| Clear
| Close
| Store_new_decision signed_voter_decision
| Store_ballot ballot
| Store_contest contest

fun perform :: "params \<Rightarrow> call \<Rightarrow> ballot_box \<Rightarrow> error option \<times> ballot_box" where
  "perform P (Open data_dir) s = ballot_box_open P data_dir s"
| "perform P Clear s = ballot_box_clear s"
| "perform P Close s = ballot_box_close s"
| "perform P (Store_new_decision d) s = store_new_decision P d s"
| "perform P (Store_ballot b) s = store_ballot P b s"
| "perform P (Store_contest c) s = store_contest P c s"

fun run :: "params \<Rightarrow> call list \<Rightarrow> ballot_box \<Rightarrow> ballot_box" where
  "run P [] s = s"
| "run P (c # cs) s = run P cs (snd (perform P c s))"

inductive reachable :: "params \<Rightarrow> ballot_box \<Rightarrow> bool" for P :: params where
  reachable_new: "reachable P (new_ballot_box dd bd cd)"
| reachable_step: "reachable P s \<Longrightarrow> reachable P (snd (perform P c s))"

section \<open>What holds of every ballot box, and the examples the theorems are tried on\<close>

text \<open>
  The ordered containers are in key order and no two records of \<^verbatim>\<open>decision_index\<close>
  have the same id.
\<close>

definition indices_ordered :: "ballot_box \<Rightarrow> bool" where
  "indices_ordered s \<longleftrightarrow>
     sorted (map fst (write_in_index s)) \<and>
     sorted (map fst (ballot_by_contest_index s)) \<and>
     sorted (map fst (contest_by_contestant_index s)) \<and>
     sorted (map by_tags (contest_tags_index s)) \<and>
     distinct (map ix_id (decision_index s))"

text \<open>The ballot box is open and so is each of its three stores.\<close>

definition fully_open :: "ballot_box \<Rightarrow> bool" where
  "fully_open s \<longleftrightarrow>
     databases_open s \<and> opened_at (decision_db s) \<noteq> None \<and>
     opened_at (ballot_db s) \<noteq> None \<and> opened_at (contest_db s) \<noteq> None"

text \<open>
  Stand-ins for the hash functions, a new ballot box on an empty machine, and a few
  records.
\<close>

definition example_params :: params where
  "example_params =
     \<lparr>decision_digest =
        (\<lambda>d. 1 + contest_id d + 16 * ballot_id d + 256 * of_nat (length (write_in_names d))),
      voter_public_key = (\<lambda>d. Inr (of_nat (length (voter_signature d)))),
      address_of_key = (\<lambda>k. ucast k),
      ballot_id_of = (\<lambda>b. of_nat (length (title b))),
      contest_id_of = (\<lambda>c. of_nat (length (contest_description c)))\<rparr>"

text \<open>The same, with a key recovery that always throws.\<close>

definition failing_key_params :: params where
  "failing_key_params = example_params\<lparr>voter_public_key := (\<lambda>d. Inl KeyRecoveryFailed)\<rparr>"

definition empty_box :: ballot_box where
  "empty_box = new_ballot_box (\<lambda>_. []) (\<lambda>_. []) (\<lambda>_. [])"

definition decision_a :: signed_voter_decision where
  "decision_a =
     \<lparr>contest_id = 3, ballot_id = 2, write_in_names = [''Alice Smith''],
      voter_signature = [1, 2]\<rparr>"

definition decision_b :: signed_voter_decision where
  "decision_b =
     \<lparr>contest_id = 5, ballot_id = 4, write_in_names = [''Alice Smith'', ''Carol''],
      voter_signature = [7]\<rparr>"

definition contest_a :: contest where
  "contest_a =
     \<lparr>contest_description = ''abc'',
      tags = [(''region'', ''south''), (''region'', ''north''), (''type'', ''primary'')],
      contestants = [\<lparr>name = ''Bob'', contestant_description = []\<rparr>]\<rparr>"

definition ballot_a :: ballot where
  "ballot_a = \<lparr>title = ''b1'', contests = [3]\<rparr>"

text \<open>The calls that store a record.\<close>

fun is_store :: "call \<Rightarrow> bool" where
  "is_store (Store_new_decision d) = True"
| "is_store (Store_ballot b) = True"
| "is_store (Store_contest c) = True"
| "is_store c = False"

text \<open>Every query of the ballot box, asked with the given keys, finds nothing.\<close>

definition answers_nothing ::
  "address \<Rightarrow> digest_type \<Rightarrow> string \<Rightarrow> string \<Rightarrow> ballot_box \<Rightarrow> bool" where
  "answers_nothing voter i k v s \<longleftrightarrow>
     get_decisions_by_voter voter s = [] \<and>
     get_decisions_by_contest i s = [] \<and>
     get_decisions_by_ballot i s = [] \<and>
     get_all_write_ins s = Some [] \<and>
     get_decisions_with_write_in k s = [] \<and>
     get_ballots_by_contest i s = [] \<and>
     get_values_by_tag k s = Some [] \<and>
     get_contests_by_tags k v s = [] \<and>
     get_contests_by_contestant k s = []"

text \<open>Two ballot boxes with the same three stores and the same flag.\<close>

definition same_stores :: "ballot_box \<Rightarrow> ballot_box \<Rightarrow> bool" where
  "same_stores s t \<longleftrightarrow>
     decision_db t = decision_db s \<and> ballot_db t = ballot_db s \<and>
     contest_db t = contest_db s \<and> databases_open t = databases_open s"

text \<open>
  The index records a contest contributes to the tag index, and what the spec says
  the tag queries return for a list of stored contests: the id of a contest once for
  each of its tags with the key, or once for each of its tags that is the pair.
\<close>

definition tag_entries :: "params \<Rightarrow> contest \<Rightarrow> contest_tags_index_record list" where
  "tag_entries P c =
     map (\<lambda>t. \<lparr>tag_key = fst t, tag_value = snd t, tag_contest_id = contest_id_of P c\<rparr>) (tags c)"

definition tagged_with_key :: "params \<Rightarrow> string \<Rightarrow> contest list \<Rightarrow> digest_type list" where
  "tagged_with_key P k cs =
     concat (map (\<lambda>c. map (\<lambda>t. contest_id_of P c) (filter (\<lambda>t. fst t = k) (tags c))) cs)"

definition tagged_with_pair ::
  "params \<Rightarrow> string \<Rightarrow> string \<Rightarrow> contest list \<Rightarrow> digest_type list" where
  "tagged_with_pair P k v cs =
     concat (map (\<lambda>c. map (\<lambda>t. contest_id_of P c) (filter (\<lambda>t. t = (k, v)) (tags c))) cs)"

text \<open>
  What the loops of \<^verbatim>\<open>open\<close> make of an index: every pair of a store, in key order,
  goes through \<^verbatim>\<open>update_index\<close>. \<open>rebuilt\<close> is the ballot box that \<^verbatim>\<open>open\<close> makes
  of a new one.
\<close>

definition reindex_ballots ::
  "(digest_type \<times> ballot) list \<Rightarrow> (digest_type \<times> digest_type) list \<Rightarrow>
   (digest_type \<times> digest_type) list" where
  "reindex_ballots kvs idx =
     foldl (\<lambda>idx kv. foldl (\<lambda>idx c. ordered_insert fst (c, fst kv) idx) idx (contests (snd kv)))
       idx kvs"

definition reindex_contestants ::
  "(digest_type \<times> contest) list \<Rightarrow> (string \<times> digest_type) list \<Rightarrow>
   (string \<times> digest_type) list" where
  "reindex_contestants kvs idx =
     foldl (\<lambda>idx kv. foldl (\<lambda>idx c. ordered_insert fst (name c, fst kv) idx) idx
                        (contestants (snd kv)))
       idx kvs"

definition reindex_tags ::
  "(digest_type \<times> contest) list \<Rightarrow> contest_tags_index_record list \<Rightarrow>
   contest_tags_index_record list" where
  "reindex_tags kvs idx =
     foldl (\<lambda>idx kv.
              foldl (\<lambda>idx t. ordered_insert by_tags
                                \<lparr>tag_key = fst t, tag_value = snd t, tag_contest_id = fst kv\<rparr> idx)
                idx (tags (snd kv)))
       idx kvs"

definition reindex_decisions ::
  "params \<Rightarrow> (digest_type \<times> signed_voter_decision) list \<Rightarrow> decision_index_record list \<Rightarrow>
   decision_index_record list" where
  "reindex_decisions P kvs idx =
     (case decision_storage_record_ctor P default_decision of
        Inl e \<Rightarrow> idx
      | Inr sr \<Rightarrow>
          foldl (\<lambda>idx kv. decision_index_insert (decision_index_record_ctor P (fst kv) sr) idx)
            idx kvs)"

definition rebuilt ::
  "params \<Rightarrow> string \<Rightarrow>
   (string \<Rightarrow> (digest_type \<times> signed_voter_decision) list) \<Rightarrow>
   (string \<Rightarrow> (digest_type \<times> ballot) list) \<Rightarrow>
   (string \<Rightarrow> (digest_type \<times> contest) list) \<Rightarrow> ballot_box" where
  "rebuilt P dir dd bd cd =
     \<lparr>decision_db = \<lparr>opened_at = Some (dir @ ''/decision_db''), disk = dd\<rparr>,
      decision_index = reindex_decisions P (dd (dir @ ''/decision_db'')) [],
      write_in_index = [],
      ballot_db = \<lparr>opened_at = Some (dir @ ''/ballot_db''), disk = bd\<rparr>,
      ballot_by_contest_index = reindex_ballots (bd (dir @ ''/ballot_db'')) [],
      contest_db = \<lparr>opened_at = Some (dir @ ''/contest_db''), disk = cd\<rparr>,
      contest_tags_index = reindex_tags (cd (dir @ ''/contest_db'')) [],
      contest_by_contestant_index = reindex_contestants (cd (dir @ ''/contest_db'')) [],
      databases_open = True\<rparr>"

text \<open>
  Two ballot boxes whose indices hold the same entries, and two ballot boxes that
  answer every query with the same set (the two ordered lists, of write-in names
  and of tag values, with the same list).
\<close>

definition same_index_sets :: "ballot_box \<Rightarrow> ballot_box \<Rightarrow> bool" where
  "same_index_sets s t \<longleftrightarrow>
     set (decision_index s) = set (decision_index t) \<and>
     write_in_index s = write_in_index t \<and>
     set (ballot_by_contest_index s) = set (ballot_by_contest_index t) \<and>
     set (contest_by_contestant_index s) = set (contest_by_contestant_index t) \<and>
     set (contest_tags_index s) = set (contest_tags_index t)"

definition same_answers ::
  "address \<Rightarrow> digest_type \<Rightarrow> string \<Rightarrow> string \<Rightarrow> ballot_box \<Rightarrow> ballot_box \<Rightarrow> bool" where
  "same_answers voter i k v s t \<longleftrightarrow>
     set (get_decisions_by_voter voter s) = set (get_decisions_by_voter voter t) \<and>
     set (get_decisions_by_contest i s) = set (get_decisions_by_contest i t) \<and>
     set (get_decisions_by_ballot i s) = set (get_decisions_by_ballot i t) \<and>
     get_all_write_ins s = get_all_write_ins t \<and>
     set (get_decisions_with_write_in k s) = set (get_decisions_with_write_in k t) \<and>
     set (get_ballots_by_contest i s) = set (get_ballots_by_contest i t) \<and>
     get_values_by_tag k s = get_values_by_tag k t \<and>
     set (get_contests_by_tags k v s) = set (get_contests_by_tags k v t) \<and>
     set (get_contests_by_contestant k s) = set (get_contests_by_contestant k t)"

text \<open>
  Each record of a store is under its own id. \<open>mirrors\<close>: the ballot box is open on
  the directory, its ballots and contests are among \<open>B\<close> and \<open>C\<close> and under their
  ids, opening a new ballot box on what its stores hold would succeed, and would
  give the index entries it has.
\<close>

definition keyed_by :: "('v \<Rightarrow> digest_type) \<Rightarrow> (digest_type \<times> 'v) list \<Rightarrow> bool" where
  "keyed_by f es = list_all (\<lambda>e. fst e = f (snd e)) es"

definition mirrors ::
  "params \<Rightarrow> string \<Rightarrow> ballot set \<Rightarrow> contest set \<Rightarrow> ballot_box \<Rightarrow> bool" where
  "mirrors P dir B C s \<longleftrightarrow>
     databases_open s \<and>
     opened_at (decision_db s) = Some (dir @ ''/decision_db'') \<and>
     opened_at (ballot_db s) = Some (dir @ ''/ballot_db'') \<and>
     opened_at (contest_db s) = Some (dir @ ''/contest_db'') \<and>
     keyed_by (ballot_id_of P) (disk (ballot_db s) (dir @ ''/ballot_db'')) \<and>
     keyed_by (contest_id_of P) (disk (contest_db s) (dir @ ''/contest_db'')) \<and>
     snd ` set (disk (ballot_db s) (dir @ ''/ballot_db'')) \<subseteq> B \<and>
     snd ` set (disk (contest_db s) (dir @ ''/contest_db'')) \<subseteq> C \<and>
     fst (open_impl P dir
            (new_ballot_box (disk (decision_db s)) (disk (ballot_db s)) (disk (contest_db s)))) =
       None \<and>
     same_index_sets s
       (rebuilt P dir (disk (decision_db s)) (disk (ballot_db s)) (disk (contest_db s)))"

text \<open>The calls that store a decision, a ballot of \<open>B\<close> or a contest of \<open>C\<close>.\<close>

fun stores_from :: "ballot set \<Rightarrow> contest set \<Rightarrow> call \<Rightarrow> bool" where
  "stores_from B C (Store_new_decision d) = True"
| "stores_from B C (Store_ballot b) = (b \<in> B)"
| "stores_from B C (Store_contest c) = (c \<in> C)"
| "stores_from B C c = False"

section \<open>Ordered containers\<close>

lemma set_ordered_insert: "set (ordered_insert f e xs) = insert e (set xs)"
  by (induction xs) auto

lemma mset_ordered_insert: "mset (ordered_insert f e xs) = add_mset e (mset xs)"
  by (induction xs) auto

lemma sorted_ordered_insert:
  "sorted (map f xs) \<Longrightarrow> sorted (map f (ordered_insert f e xs))"
  by (induction xs) (auto simp: set_ordered_insert)

lemma mset_foldl_ordered_insert:
  "mset (foldl (\<lambda>idx x. ordered_insert f (g x) idx) idx xs) = mset idx + mset (map g xs)"
  by (induction xs arbitrary: idx) (auto simp: mset_ordered_insert)

lemma sorted_foldl_ordered_insert:
  "sorted (map f idx) \<Longrightarrow> sorted (map f (foldl (\<lambda>idx x. ordered_insert f (g x) idx) idx xs))"
  by (induction xs arbitrary: idx) (auto simp: sorted_ordered_insert)

lemma upper_bound_sorted:
  "sorted (map f xs) \<Longrightarrow> upper_bound f k xs = filter (\<lambda>x. k < f x) xs"
  unfolding upper_bound_def
proof (induction xs)
  case Nil
  then show ?case by simp
next
  case (Cons x xs)
  show ?case
  proof (cases "k < f x")
    case True
    with Cons.prems have "\<forall>y\<in>set xs. k < f y" by auto
    then have "filter (\<lambda>x. k < f x) xs = xs" by simp
    with True show ?thesis by simp
  next
    case False
    with Cons show ?thesis by simp
  qed
qed

lemma lower_bound_sorted:
  "sorted (map f xs) \<Longrightarrow> lower_bound f k xs = filter (\<lambda>x. k \<le> f x) xs"
  unfolding lower_bound_def
proof (induction xs)
  case Nil
  then show ?case by simp
next
  case (Cons x xs)
  show ?case
  proof (cases "f x < k")
    case True
    with Cons show ?thesis by simp
  next
    case False
    with Cons.prems have "\<forall>y\<in>set xs. k \<le> f y" by auto
    then have "filter (\<lambda>x. k \<le> f x) xs = xs" by simp
    with False show ?thesis by simp
  qed
qed

lemma takeWhile_sorted:
  "sorted (map f xs) \<Longrightarrow> takeWhile (\<lambda>x. \<not> k < f x) xs = filter (\<lambda>x. \<not> k < f x) xs"
proof (induction xs)
  case Nil
  then show ?case by simp
next
  case (Cons x xs)
  show ?case
  proof (cases "k < f x")
    case True
    with Cons.prems have "\<forall>y\<in>set xs. k < f y" by auto
    then have "filter (\<lambda>x. \<not> k < f x) xs = []" by simp
    with True show ?thesis by simp
  next
    case False
    with Cons show ?thesis by simp
  qed
qed

lemma equal_range_sorted:
  assumes "sorted (map f xs)"
  shows "equal_range f k xs = filter (\<lambda>x. f x = k) xs"
proof -
  have "sorted (map f (filter (\<lambda>x. k \<le> f x) xs))"
    using assms by (simp add: sorted_filter)
  then have "equal_range f k xs = filter (\<lambda>x. \<not> k < f x) (filter (\<lambda>x. k \<le> f x) xs)"
    using assms by (simp add: equal_range_def lower_bound_sorted takeWhile_sorted)
  also have "\<dots> = filter (\<lambda>x. f x = k) xs"
    by (simp add: conj_commute) (rule filter_cong, auto)
  finally show ?thesis .
qed

lemma sorted_by_tags_imp_sorted_key:
  "sorted (map by_tags xs) \<Longrightarrow> sorted (map tag_key xs)"
  by (induction xs) (auto simp: by_tags_def less_eq_prod_def)

section \<open>The two query loops\<close>

lemma remdups_adj_sorted_Cons:
  "sorted (a # xs) \<Longrightarrow> remdups_adj (a # xs) = a # remdups_adj (filter (\<lambda>x. a < x) xs)"
proof (induction xs)
  case Nil
  then show ?case by simp
next
  case (Cons y ys)
  show ?case
  proof (cases "y = a")
    case True
    with Cons show ?thesis by simp
  next
    case False
    with Cons.prems have lt: "a < y" by auto
    with Cons.prems have "\<forall>z\<in>set ys. a < z" by auto
    then have "filter (\<lambda>x. a < x) ys = ys" by simp
    with lt False show ?thesis by simp
  qed
qed

lemma distinct_remdups_adj_sorted: "sorted xs \<Longrightarrow> distinct (remdups_adj xs)"
proof (induction "length xs" arbitrary: xs rule: less_induct)
  case less
  show ?case
  proof (cases xs)
    case Nil
    then show ?thesis by simp
  next
    case (Cons a ys)
    let ?zs = "filter (\<lambda>x. a < x) ys"
    have eq: "remdups_adj xs = a # remdups_adj ?zs"
      using less.prems Cons by (simp only: remdups_adj_sorted_Cons)
    have "length ?zs < length xs" using Cons by (simp add: le_imp_less_Suc)
    moreover have "sorted ?zs" using less.prems Cons by (simp add: sorted_filter [where f = "\<lambda>x. x", simplified])
    ultimately have "distinct (remdups_adj ?zs)" by (rule less.hyps)
    moreover have "a \<notin> set (remdups_adj ?zs)" by simp
    ultimately show ?thesis using eq by simp
  qed
qed

lemma filter_filter_imp:
  "(\<And>x. x \<in> set xs \<Longrightarrow> P x \<Longrightarrow> Q x) \<Longrightarrow> filter P (filter Q xs) = filter P xs"
  by (induction xs) auto

lemma all_write_ins_loop_sorted:
  assumes srt: "sorted (map fst idx)"
  shows "itr = idx \<or> (\<exists>b. itr = filter (\<lambda>x. b < fst x) idx) \<Longrightarrow>
         all_write_ins_loop idx itr results = Some (results @ remdups_adj (map fst itr))"
proof (induction "length itr" arbitrary: itr results rule: less_induct)
  case less
  show ?case
  proof (cases itr)
    case Nil
    then show ?thesis by (subst all_write_ins_loop.simps) simp
  next
    case (Cons e rest)
    let ?nxt = "filter (\<lambda>x. fst e < fst x) idx"
    have sitr: "sorted (map fst itr)"
      using less.prems srt by (auto simp: sorted_filter)
    have nxt: "?nxt = filter (\<lambda>x. fst e < fst x) rest"
    proof -
      from less.prems have "?nxt = filter (\<lambda>x. fst e < fst x) itr"
      proof
        assume "itr = idx"
        then show ?thesis by simp
      next
        assume "\<exists>b. itr = filter (\<lambda>x. b < fst x) idx"
        then obtain b where b: "itr = filter (\<lambda>x. b < fst x) idx" ..
        then have "e \<in> set (filter (\<lambda>x. b < fst x) idx)" using Cons by (metis list.set_intros(1))
        then have "b < fst e" by simp
        then have "filter (\<lambda>x. fst e < fst x) (filter (\<lambda>x. b < fst x) idx) = ?nxt"
          by (intro filter_filter_imp) auto
        with b show ?thesis by simp
      qed
      with Cons show ?thesis by simp
    qed
    then have "length ?nxt < length itr" using Cons by (simp add: le_imp_less_Suc)
    then have ih: "all_write_ins_loop idx ?nxt (results @ [fst e]) =
                   Some ((results @ [fst e]) @ remdups_adj (map fst ?nxt))"
      by (rule less.hyps) blast
    have "remdups_adj (map fst itr) = fst e # remdups_adj (filter (\<lambda>y. fst e < y) (map fst rest))"
      using sitr Cons remdups_adj_sorted_Cons [of "fst e" "map fst rest"] by simp
    also have "filter (\<lambda>y. fst e < y) (map fst rest) = map fst ?nxt"
      by (simp add: nxt filter_map comp_def)
    finally have rd: "remdups_adj (map fst itr) = fst e # remdups_adj (map fst ?nxt)" .
    show ?thesis
      unfolding rd
      by (subst all_write_ins_loop.simps) (simp add: Cons upper_bound_sorted [OF srt] ih)
  qed
qed

lemma sorted_values_of_key:
  "sorted (map by_tags xs) \<Longrightarrow> sorted (map tag_value (filter (\<lambda>x. tag_key x = k) xs))"
  by (induction xs) (auto simp: by_tags_def less_eq_prod_def)

lemma values_by_tag_loop_sorted:
  assumes srt: "sorted (map by_tags idx)"
  shows "itr = filter (\<lambda>x. Q (by_tags x)) idx \<Longrightarrow>
         (\<And>p q. Q p \<Longrightarrow> p \<le> q \<Longrightarrow> Q q) \<Longrightarrow>
         (\<And>p. Q p \<Longrightarrow> k \<le> fst p) \<Longrightarrow>
         (\<And>p. k < fst p \<Longrightarrow> Q p) \<Longrightarrow>
         values_by_tag_loop idx k itr results =
           Some (results @ remdups_adj (map tag_value (filter (\<lambda>x. tag_key x = k) itr)))"
proof (induction "length itr" arbitrary: itr results Q rule: less_induct)
  case less
  note itr = less.prems(1) and up = less.prems(2) and ge = less.prems(3) and gt = less.prems(4)
  have skey: "sorted (map tag_key idx)"
    using srt by (rule sorted_by_tags_imp_sorted_key)
  have sitr: "sorted (map by_tags itr)"
    using srt itr by (simp add: sorted_filter)
  have ub: "upper_bound tag_key k idx = filter (\<lambda>x. k < tag_key x) itr"
  proof -
    have "filter (\<lambda>x. k < tag_key x) (filter (\<lambda>x. Q (by_tags x)) idx) =
          filter (\<lambda>x. k < tag_key x) idx"
      by (rule filter_filter_imp) (simp add: gt by_tags_def)
    then show ?thesis by (simp add: upper_bound_sorted [OF skey] itr)
  qed
  have keys: "\<And>x. x \<in> set itr \<Longrightarrow> k \<le> tag_key x"
    using ge itr by (fastforce simp: by_tags_def)
  show ?case
  proof (cases "itr = upper_bound tag_key k idx")
    case True
    then have "itr = filter (\<lambda>x. k < tag_key x) itr" using ub by simp
    then have "set itr = set (filter (\<lambda>x. k < tag_key x) itr)" by simp
    then have "\<forall>x\<in>set itr. k < tag_key x" by auto
    then have "filter (\<lambda>x. tag_key x = k) itr = []" by (auto simp: filter_empty_conv)
    with True show ?thesis by (subst values_by_tag_loop.simps) simp
  next
    case False
    then have "filter (\<lambda>x. k < tag_key x) itr \<noteq> itr" using ub by simp
    then obtain y where y: "y \<in> set itr" "\<not> k < tag_key y"
      by (metis filter_True)
    then have ykey: "tag_key y = k" using keys [of y] by simp
    from y obtain r rest where Cons: "itr = r # rest" by (cases itr) auto
    have rle: "\<forall>x\<in>set rest. by_tags r \<le> by_tags x" using sitr Cons by simp
    have rkey: "tag_key r = k"
    proof -
      have "by_tags r \<le> by_tags y" using y(1) rle Cons by auto
      then have "tag_key r \<le> k" using ykey by (auto simp: by_tags_def less_eq_prod_def)
      moreover have "k \<le> tag_key r" using keys [of r] Cons by simp
      ultimately show ?thesis by simp
    qed
    let ?Q = "\<lambda>p. by_tags r < p"
    let ?nxt = "filter (\<lambda>x. ?Q (by_tags x)) idx"
    have "r \<in> set (filter (\<lambda>x. Q (by_tags x)) idx)" using itr Cons by (metis list.set_intros(1))
    then have Qr: "Q (by_tags r)" by simp
    have nxt: "?nxt = filter (\<lambda>x. by_tags r < by_tags x) rest"
    proof -
      have eq0: "filter (\<lambda>x. Q (by_tags x)) idx = r # rest" using itr Cons by simp
      have "filter (\<lambda>x. by_tags r < by_tags x) (filter (\<lambda>x. Q (by_tags x)) idx) = ?nxt"
        by (rule filter_filter_imp) (use up Qr in auto)
      then have "?nxt = filter (\<lambda>x. by_tags r < by_tags x) (r # rest)"
        by (simp only: eq0)
      then show ?thesis by simp
    qed
    then have "length ?nxt < length itr" using Cons by (simp add: le_imp_less_Suc)
    moreover have "?nxt = filter (\<lambda>x. ?Q (by_tags x)) idx" by simp
    moreover have "\<And>p q. ?Q p \<Longrightarrow> p \<le> q \<Longrightarrow> ?Q q" by simp
    moreover have "\<And>p. ?Q p \<Longrightarrow> k \<le> fst p"
      using rkey by (auto simp: by_tags_def less_prod_def)
    moreover have "\<And>p. k < fst p \<Longrightarrow> ?Q p"
      using rkey by (auto simp: by_tags_def less_prod_def)
    ultimately have ih:
      "values_by_tag_loop idx k ?nxt (results @ [tag_value r]) =
         Some ((results @ [tag_value r]) @
               remdups_adj (map tag_value (filter (\<lambda>x. tag_key x = k) ?nxt)))"
      by (rule less.hyps)
    let ?vs = "map tag_value (filter (\<lambda>x. tag_key x = k) rest)"
    have svs: "sorted (tag_value r # ?vs)"
      using sorted_values_of_key [OF sitr, of k] by (simp add: Cons rkey)
    have fl: "map tag_value (filter (\<lambda>x. tag_key x = k) ?nxt) = filter (\<lambda>v. tag_value r < v) ?vs"
      unfolding nxt using rkey
      by (induction rest) (auto simp: by_tags_def less_prod_def)
    have rd: "remdups_adj (map tag_value (filter (\<lambda>x. tag_key x = k) itr)) =
              tag_value r # remdups_adj (map tag_value (filter (\<lambda>x. tag_key x = k) ?nxt))"
    proof -
      have "remdups_adj (map tag_value (filter (\<lambda>x. tag_key x = k) itr)) =
            remdups_adj (tag_value r # ?vs)"
        by (simp add: Cons rkey)
      also have "\<dots> = tag_value r # remdups_adj (filter (\<lambda>v. tag_value r < v) ?vs)"
        by (rule remdups_adj_sorted_Cons [OF svs])
      also have "\<dots> = tag_value r #
                   remdups_adj (map tag_value (filter (\<lambda>x. tag_key x = k) ?nxt))"
        by (simp only: fl)
      finally show ?thesis .
    qed
    have step: "upper_bound by_tags (tag_key r, tag_value r) idx = ?nxt"
      using upper_bound_sorted [OF srt, of "by_tags r"] by (simp add: by_tags_def)
    show ?thesis
      unfolding rd using False
      by (subst values_by_tag_loop.simps) (simp add: Cons step ih)
  qed
qed

lemma get_values_by_tag_sorted:
  assumes "sorted (map by_tags (contest_tags_index s))"
  shows "get_values_by_tag k s =
           Some (remdups_adj (map tag_value (filter (\<lambda>x. tag_key x = k) (contest_tags_index s))))"
proof -
  let ?idx = "contest_tags_index s"
  have skey: "sorted (map tag_key ?idx)"
    using assms by (rule sorted_by_tags_imp_sorted_key)
  have lb: "lower_bound tag_key k ?idx = filter (\<lambda>x. k \<le> fst (by_tags x)) ?idx"
    by (simp add: lower_bound_sorted [OF skey] by_tags_def)
  have "values_by_tag_loop ?idx k (lower_bound tag_key k ?idx) [] =
          Some ([] @ remdups_adj (map tag_value (filter (\<lambda>x. tag_key x = k) (lower_bound tag_key k ?idx))))"
    by (rule values_by_tag_loop_sorted [OF assms lb]) auto
  moreover have "filter (\<lambda>x. tag_key x = k) (lower_bound tag_key k ?idx) = filter (\<lambda>x. tag_key x = k) ?idx"
    unfolding lb by (rule filter_filter_imp) (simp add: by_tags_def)
  ultimately show ?thesis by (simp add: get_values_by_tag_def)
qed

lemma get_all_write_ins_sorted:
  assumes "sorted (map fst (write_in_index s))"
  shows "get_all_write_ins s = Some (remdups_adj (map fst (write_in_index s)))"
  using all_write_ins_loop_sorted [OF assms, of "write_in_index s" "[]"]
  by (simp add: get_all_write_ins_def)

text \<open>
  On an index in key order \<^verbatim>\<open>get_all_write_ins\<close> returns, and returns each name of the
  index once, in ascending order.
\<close>

lemma get_all_write_ins_ascending:
  assumes "sorted (map fst (write_in_index s))"
  shows "\<exists>ws. get_all_write_ins s = Some ws \<and> sorted ws \<and> distinct ws \<and>
              set ws = fst ` set (write_in_index s)"
  using assms
  by (simp add: get_all_write_ins_sorted [OF assms] distinct_remdups_adj_sorted)

section \<open>Every reachable ballot box has ordered indices\<close>

lemma for_each_invariant:
  assumes "\<And>x t. I t \<Longrightarrow> I (snd (body x t))" and "I s"
  shows "I (snd (for_each body xs s))"
  using assms(2)
proof (induction xs arbitrary: s)
  case Nil
  then show ?case by simp
next
  case (Cons x xs)
  from Cons.prems have step: "I (snd (body x s))" by (rule assms(1))
  show ?case
  proof (cases "body x s")
    case (Pair r t)
    with step have "I t" by simp
    then have "I (snd (for_each body xs t))" by (rule Cons.IH)
    with Pair \<open>I t\<close> show ?thesis by (cases r) simp_all
  qed
qed

lemma and_then_invariant:
  assumes "\<And>t. I t \<Longrightarrow> I (snd (f t))" and "\<And>t. I t \<Longrightarrow> I (snd (g t))" and "I s"
  shows "I (snd (and_then f g s))"
proof (cases "f s")
  case (Pair r t)
  from assms(1) [OF assms(3)] Pair have "I t" by simp
  with assms(2) Pair show ?thesis by (cases r) (simp_all add: and_then_def)
qed

lemma for_each_indices_ordered:
  "(\<And>x t. indices_ordered t \<Longrightarrow> indices_ordered (snd (body x t))) \<Longrightarrow>
   indices_ordered s \<Longrightarrow> indices_ordered (snd (for_each body xs s))"
  by (rule for_each_invariant)

lemma and_then_indices_ordered:
  "(\<And>t. indices_ordered t \<Longrightarrow> indices_ordered (snd (f t))) \<Longrightarrow>
   (\<And>t. indices_ordered t \<Longrightarrow> indices_ordered (snd (g t))) \<Longrightarrow>
   indices_ordered s \<Longrightarrow> indices_ordered (snd (and_then f g s))"
  by (rule and_then_invariant)

lemma distinct_decision_index_insert:
  "distinct (map ix_id idx) \<Longrightarrow> distinct (map ix_id (decision_index_insert r idx))"
  by (simp add: decision_index_insert_def)

lemma indices_ordered_update_index_decision:
  "indices_ordered s \<Longrightarrow> indices_ordered (update_index_decision P i r s)"
  by (simp add: indices_ordered_def update_index_decision_def
      sorted_foldl_ordered_insert [where g = "\<lambda>w. (w, i)"] distinct_decision_index_insert)

lemma indices_ordered_update_index_ballot:
  "indices_ordered s \<Longrightarrow> indices_ordered (update_index_ballot i b s)"
  by (simp add: indices_ordered_def update_index_ballot_def
      sorted_foldl_ordered_insert [where g = "\<lambda>c. (c, i)"])

lemma indices_ordered_update_index_contest:
  "indices_ordered s \<Longrightarrow> indices_ordered (update_index_contest i c s)"
  by (simp add: indices_ordered_def update_index_contest_def
      sorted_foldl_ordered_insert [where g = "\<lambda>c. (name c, i)"]
      sorted_foldl_ordered_insert
        [where g = "\<lambda>t. \<lparr>tag_key = fst t, tag_value = snd t, tag_contest_id = i\<rparr>"])

lemma indices_ordered_frame:
  "indices_ordered (s\<lparr>decision_db := x\<rparr>) = indices_ordered s"
  "indices_ordered (s\<lparr>ballot_db := y\<rparr>) = indices_ordered s"
  "indices_ordered (s\<lparr>contest_db := z\<rparr>) = indices_ordered s"
  "indices_ordered (s\<lparr>databases_open := b\<rparr>) = indices_ordered s"
  by (simp_all add: indices_ordered_def)

lemma indices_ordered_clear_indices: "indices_ordered (clear_indices s)"
  by (simp add: indices_ordered_def clear_indices_def)

lemma indices_ordered_store_record_decision:
  "indices_ordered s \<Longrightarrow> indices_ordered (snd (store_record_decision P d s))"
  by (auto simp: store_record_decision_def Let_def indices_ordered_frame
      indices_ordered_update_index_decision split: sum.splits)

lemma indices_ordered_store_record_ballot:
  "indices_ordered s \<Longrightarrow> indices_ordered (snd (store_record_ballot P b s))"
  by (auto simp: store_record_ballot_def Let_def indices_ordered_frame
      indices_ordered_update_index_ballot split: sum.splits)

lemma indices_ordered_store_record_contest:
  "indices_ordered s \<Longrightarrow> indices_ordered (snd (store_record_contest P c s))"
  by (auto simp: store_record_contest_def Let_def indices_ordered_frame
      indices_ordered_update_index_contest split: sum.splits)

lemma indices_ordered_reindex_decision:
  "indices_ordered s \<Longrightarrow> indices_ordered (snd (reindex_decision P kv s))"
  by (auto simp: reindex_decision_def indices_ordered_update_index_decision split: sum.splits)

lemma indices_ordered_open_decision_db:
  "indices_ordered s \<Longrightarrow> indices_ordered (snd (open_decision_db P dir s))"
  by (auto simp: open_decision_db_def indices_ordered_frame split: sum.splits
      intro!: for_each_indices_ordered indices_ordered_reindex_decision)

lemma indices_ordered_open_ballot_db:
  "indices_ordered s \<Longrightarrow> indices_ordered (snd (open_ballot_db dir s))"
  by (auto simp: open_ballot_db_def indices_ordered_frame split: sum.splits
      intro!: for_each_indices_ordered indices_ordered_update_index_ballot)

lemma indices_ordered_open_contest_db:
  "indices_ordered s \<Longrightarrow> indices_ordered (snd (open_contest_db dir s))"
  by (auto simp: open_contest_db_def indices_ordered_frame split: sum.splits
      intro!: for_each_indices_ordered indices_ordered_update_index_contest)

lemma indices_ordered_open_impl:
  "indices_ordered s \<Longrightarrow> indices_ordered (snd (open_impl P dir s))"
  unfolding open_impl_def
  by (auto simp: indices_ordered_frame
      intro!: and_then_indices_ordered indices_ordered_open_decision_db
        indices_ordered_open_ballot_db indices_ordered_open_contest_db)

lemma indices_ordered_wipe:
  "indices_ordered s \<Longrightarrow> indices_ordered (snd (wipe_decision_db s))"
  "indices_ordered s \<Longrightarrow> indices_ordered (snd (wipe_ballot_db s))"
  "indices_ordered s \<Longrightarrow> indices_ordered (snd (wipe_contest_db s))"
  by (auto simp: wipe_decision_db_def wipe_ballot_db_def wipe_contest_db_def
      indices_ordered_frame split: sum.splits intro!: for_each_indices_ordered)

lemma indices_ordered_clear_impl:
  "indices_ordered s \<Longrightarrow> indices_ordered (snd (clear_impl s))"
  unfolding clear_impl_def
  by (auto simp: indices_ordered_clear_indices
      intro!: and_then_indices_ordered indices_ordered_wipe)

lemma indices_ordered_close_db:
  "indices_ordered s \<Longrightarrow> indices_ordered (snd (ballot_box_close s))"
  by (auto simp: ballot_box_close_def close_db_def indices_ordered_frame split: sum.splits)

lemma indices_ordered_perform:
  "indices_ordered s \<Longrightarrow> indices_ordered (snd (perform P c s))"
  by (cases c)
     (simp_all add: ballot_box_open_def ballot_box_clear_def store_new_decision_def
        store_ballot_def store_contest_def indices_ordered_open_impl
        indices_ordered_clear_impl indices_ordered_close_db
        indices_ordered_store_record_decision indices_ordered_store_record_ballot
        indices_ordered_store_record_contest)

lemma reachable_indices_ordered: "reachable P s \<Longrightarrow> indices_ordered s"
proof (induction rule: reachable.induct)
  case (reachable_new dd bd cd)
  show ?case by (simp add: indices_ordered_def new_ballot_box_def)
next
  case (reachable_step s c)
  then show ?case by (simp add: indices_ordered_perform)
qed

section \<open>Storing and fetching a decision\<close>

lemma map_of_upsert: "map_of (upsert k v es) k = Some v"
  by (induction es) auto

text \<open>
  Whatever decision is stored, and with whatever hash functions, the store holds a
  default-constructed decision under the digest of the decision that was passed.
\<close>

lemma store_new_decision_fetch:
  assumes "store_new_decision P d s = (None, s')"
  shows "get_decision (decision_digest P d) s' = Inr default_decision"
  using assms
  by (auto simp: store_new_decision_def store_record_decision_def Let_def
      decision_storage_record_ctor_def as_signed_voter_decision_def lm_store_def
      update_index_decision_def get_decision_def lm_fetch_def map_of_upsert
      default_decision_def split: sum.splits option.splits)

text \<open>
  C1 (store a decision, then fetch it by its digest: the record comes back). The code
  does not do this. \<open>decision_a\<close> is stored in a ballot box opened on an empty
  directory; the fetch by its digest succeeds and returns the default-constructed
  decision, which is not \<open>decision_a\<close>: the constructor of
  \<^verbatim>\<open>decision_storage_record\<close> drops its argument.
\<close>

theorem store_then_fetch_returns_default:
  "get_decision (decision_digest example_params decision_a)
     (run example_params [Open ''data'', Store_new_decision decision_a] empty_box) =
     Inr default_decision \<and>
   default_decision \<noteq> decision_a"
  by code_simp

text \<open>
  C2 (the queries by voter, by contest and by ballot return exactly the stored
  decisions with that key). The code does not do this. Two decisions with distinct
  contests (3 and 5), ballots (2 and 4) and voter keys (2 and 1) are stored; their
  digests are 292 and 582. The queries for contest 3, for ballot 2 and for the voter
  of key 2 return nothing; the queries for the zero contest, the zero ballot and the
  voter of the default-constructed decision return both ids. Each index record is
  built from a default-constructed decision.
\<close>

theorem decision_queries_see_default_fields:
  "contest_id decision_a = 3 \<and> contest_id decision_b = 5 \<and>
   ballot_id decision_a = 2 \<and> ballot_id decision_b = 4 \<and>
   voter_public_key example_params decision_a = Inr 2 \<and>
   voter_public_key example_params decision_b = Inr 1 \<and>
   voter_public_key example_params default_decision = Inr 0 \<and>
   decision_digest example_params decision_a = 292 \<and>
   decision_digest example_params decision_b = 582 \<and>
   set (get_decisions_by_contest 3
     (run example_params
        [Open ''data'', Store_new_decision decision_a, Store_new_decision decision_b]
        empty_box)) = {} \<and>
   set (get_decisions_by_ballot 2
     (run example_params
        [Open ''data'', Store_new_decision decision_a, Store_new_decision decision_b]
        empty_box)) = {} \<and>
   set (get_decisions_by_voter (address_of_key example_params 2)
     (run example_params
        [Open ''data'', Store_new_decision decision_a, Store_new_decision decision_b]
        empty_box)) = {} \<and>
   set (get_decisions_by_contest 0
     (run example_params
        [Open ''data'', Store_new_decision decision_a, Store_new_decision decision_b]
        empty_box)) = {292, 582} \<and>
   set (get_decisions_by_ballot 0
     (run example_params
        [Open ''data'', Store_new_decision decision_a, Store_new_decision decision_b]
        empty_box)) = {292, 582} \<and>
   set (get_decisions_by_voter (address_of_key example_params 0)
     (run example_params
        [Open ''data'', Store_new_decision decision_a, Store_new_decision decision_b]
        empty_box)) = {292, 582}"
  by code_simp

text \<open>
  C6 (two stored decisions share the write-in name Alice Smith: the name is listed
  once and the query for it returns both ids). The code does not do this: after both
  stores the list of write-in names is empty and the query for the name returns
  nothing, because the write-in names indexed are those of a default-constructed
  decision.
\<close>

theorem shared_write_in_is_not_indexed:
  "get_all_write_ins
     (run example_params
        [Open ''data'', Store_new_decision decision_a, Store_new_decision decision_b]
        empty_box) = Some [] \<and>
   get_decisions_with_write_in ''Alice Smith''
     (run example_params
        [Open ''data'', Store_new_decision decision_a, Store_new_decision decision_b]
        empty_box) = []"
  by code_simp

section \<open>Closing\<close>

text \<open>
  \<^verbatim>\<open>ballot_box::close\<close> never changes the flag or an index; \<^verbatim>\<open>ballot_box_impl::close\<close>,
  which it does not call, closes the three stores, empties the indices and clears
  the flag.
\<close>

lemma ballot_box_close_keeps:
  "databases_open (snd (ballot_box_close s)) = databases_open s"
  "ballot_db (snd (ballot_box_close s)) = ballot_db s"
  "contest_db (snd (ballot_box_close s)) = contest_db s"
  "contest_tags_index (snd (ballot_box_close s)) = contest_tags_index s"
  "decision_index (snd (ballot_box_close s)) = decision_index s"
  by (simp_all add: ballot_box_close_def close_db_def split: sum.splits)

lemma open_after_ballot_box_close:
  assumes "databases_open s"
  shows "ballot_box_open P dir (snd (ballot_box_close s)) =
           (Some AlreadyOpen, snd (ballot_box_close s))"
  using assms by (simp add: ballot_box_open_def open_impl_def ballot_box_close_keeps)

lemma close_impl_closes:
  assumes "fully_open s"
  shows "fst (close_impl s) = None"
    and "\<not> databases_open (snd (close_impl s))"
    and "opened_at (decision_db (snd (close_impl s))) = None"
    and "opened_at (ballot_db (snd (close_impl s))) = None"
    and "opened_at (contest_db (snd (close_impl s))) = None"
    and "clear_indices (snd (close_impl s)) = snd (close_impl s)"
  using assms
  by (auto simp: fully_open_def close_impl_def close_db_def and_then_def lm_close_def
      clear_impl_def clear_indices_def)

lemma close_impl_not_open: "\<not> databases_open s \<Longrightarrow> close_impl s = (Some NotOpen, s)"
  by (simp add: close_impl_def)

text \<open>
  C4 (close closes the three stores, empties the indices and leaves the ballot box
  closed, so that open, close, open, close succeeds at each step). The code does
  not do this. After open, the store of a contest and close, which reports no
  error, the ballot box still says it is open, the ballot store is still open, the
  contest is still found by its contestant, and the second open fails with
  AlreadyOpen.
\<close>

theorem close_leaves_ballot_box_open:
  "fst (ballot_box_close
          (run example_params [Open ''data'', Store_contest contest_a] empty_box)) = None \<and>
   is_open (run example_params [Open ''data'', Store_contest contest_a, Close] empty_box) \<and>
   opened_at (ballot_db
     (run example_params [Open ''data'', Store_contest contest_a, Close] empty_box)) =
     Some ''data/ballot_db'' \<and>
   get_contests_by_contestant ''Bob''
     (run example_params [Open ''data'', Store_contest contest_a, Close] empty_box) = [3] \<and>
   fst (ballot_box_open example_params ''data''
          (run example_params [Open ''data'', Store_contest contest_a, Close] empty_box)) =
     Some AlreadyOpen"
  by code_simp

section \<open>Storing a record\<close>

text \<open>
  C9. Each of the three store operations persists, then indexes. If the persist
  fails, the operation fails with that error and the ballot box, its indices
  included, is what it was. If the persist succeeds, the operation succeeds (no index
  insertion fails) and the result is \<^verbatim>\<open>update_index\<close> applied to the ballot box that
  holds the persisted record. For a decision, \<open>r\<close> is the storage record the
  constructor built; if the constructor throws, nothing is persisted or indexed.
\<close>

theorem store_persists_then_indexes:
  "(decision_storage_record_ctor P d = Inl e \<longrightarrow>
      store_new_decision P d s = (Some e, s)) \<and>
   (decision_storage_record_ctor P d = Inr r \<and>
    lm_store (decision_digest P d) (as_signed_voter_decision r) (decision_db s) = Inl e \<longrightarrow>
      store_new_decision P d s = (Some e, s)) \<and>
   (decision_storage_record_ctor P d = Inr r \<and>
    lm_store (decision_digest P d) (as_signed_voter_decision r) (decision_db s) = Inr ddb \<longrightarrow>
      store_new_decision P d s =
        (None, update_index_decision P (decision_digest P d) r (s\<lparr>decision_db := ddb\<rparr>))) \<and>
   (lm_store (ballot_id_of P b) b (ballot_db s) = Inl e \<longrightarrow>
      store_ballot P b s = (Some e, s)) \<and>
   (lm_store (ballot_id_of P b) b (ballot_db s) = Inr bdb \<longrightarrow>
      store_ballot P b s =
        (None, update_index_ballot (ballot_id_of P b) b (s\<lparr>ballot_db := bdb\<rparr>))) \<and>
   (lm_store (contest_id_of P c) c (contest_db s) = Inl e \<longrightarrow>
      store_contest P c s = (Some e, s)) \<and>
   (lm_store (contest_id_of P c) c (contest_db s) = Inr cdb \<longrightarrow>
      store_contest P c s =
        (None, update_index_contest (contest_id_of P c) c (s\<lparr>contest_db := cdb\<rparr>)))"
  by (simp add: store_new_decision_def store_record_decision_def store_ballot_def
      store_record_ballot_def store_contest_def store_record_contest_def Let_def)

theorem store_persists_then_indexes_witness:
  "store_new_decision failing_key_params decision_a
     (snd (ballot_box_open example_params ''data'' empty_box)) =
     (Some KeyRecoveryFailed, snd (ballot_box_open example_params ''data'' empty_box)) \<and>
   store_new_decision example_params decision_a empty_box = (Some NotOpen, empty_box) \<and>
   store_ballot example_params ballot_a empty_box = (Some NotOpen, empty_box) \<and>
   store_contest example_params contest_a empty_box = (Some NotOpen, empty_box) \<and>
   fst (store_new_decision example_params decision_a
          (snd (ballot_box_open example_params ''data'' empty_box))) = None \<and>
   fst (store_ballot example_params ballot_a
          (snd (ballot_box_open example_params ''data'' empty_box))) = None \<and>
   fst (store_contest example_params contest_a
          (snd (ballot_box_open example_params ''data'' empty_box))) = None"
proof -
  let ?P = example_params
  let ?r = "\<lparr>contest_id = 0, ballot_id = 0, write_in_names = [], voter_signature = [],
             voter_key = 0\<rparr> :: decision_storage_record"
  let ?t = "snd (ballot_box_open ?P ''data'' empty_box)"
  have ctor: "decision_storage_record_ctor ?P decision_a = Inr ?r"
    by (simp add: decision_storage_record_ctor_def example_params_def default_decision_def)
  have no_key: "decision_storage_record_ctor failing_key_params decision_a = Inl KeyRecoveryFailed"
    by (simp add: decision_storage_record_ctor_def failing_key_params_def)
  have closed:
    "lm_store (decision_digest ?P decision_a) (as_signed_voter_decision ?r)
       (decision_db empty_box) = Inl NotOpen"
    "lm_store (ballot_id_of ?P ballot_a) ballot_a (ballot_db empty_box) = Inl NotOpen"
    "lm_store (contest_id_of ?P contest_a) contest_a (contest_db empty_box) = Inl NotOpen"
    by (simp_all add: lm_store_def empty_box_def new_ballot_box_def)
  have opened:
    "opened_at (decision_db ?t) = Some ''data/decision_db''"
    "opened_at (ballot_db ?t) = Some ''data/ballot_db''"
    "opened_at (contest_db ?t) = Some ''data/contest_db''"
    by code_simp+
  obtain ddb bdb cdb where stored:
    "lm_store (decision_digest ?P decision_a) (as_signed_voter_decision ?r)
       (decision_db ?t) = Inr ddb"
    "lm_store (ballot_id_of ?P ballot_a) ballot_a (ballot_db ?t) = Inr bdb"
    "lm_store (contest_id_of ?P contest_a) contest_a (contest_db ?t) = Inr cdb"
    by (simp add: lm_store_def opened)
  from store_persists_then_indexes
         [where P = ?P and d = decision_a and r = ?r and b = ballot_a and c = contest_a
            and s = empty_box and e = NotOpen]
       store_persists_then_indexes
         [where P = ?P and d = decision_a and r = ?r and b = ballot_a and c = contest_a
            and s = ?t and ddb = ddb and bdb = bdb and cdb = cdb]
       store_persists_then_indexes
         [where P = failing_key_params and d = decision_a and s = ?t
            and e = KeyRecoveryFailed]
       ctor no_key closed stored
  show ?thesis by simp
qed


section \<open>Clearing\<close>

lemma answers_nothing_clear_indices: "answers_nothing voter i k v (clear_indices s)"
proof -
  have "all_write_ins_loop [] [] [] = Some []"
    by (subst all_write_ins_loop.simps) simp
  moreover have "values_by_tag_loop [] k [] [] = Some []"
    by (subst values_by_tag_loop.simps) (simp add: upper_bound_def)
  ultimately show ?thesis
    by (simp add: answers_nothing_def clear_indices_def get_decisions_by_voter_def
        get_decisions_by_contest_def get_decisions_by_ballot_def get_decisions_by_key_def
        hashed_equal_range_def get_all_write_ins_def get_decisions_with_write_in_def
        get_ballots_by_contest_def get_values_by_tag_def get_contests_by_tags_def
        get_contests_by_contestant_def equal_range_def lower_bound_def)
qed

lemma remove_all_decisions:
  assumes "opened_at (decision_db t) = Some dir"
  shows "for_each (\<lambda>kv t. case lm_remove (fst kv) (decision_db t) of
                              Inl e \<Rightarrow> (Some e, t)
                            | Inr db \<Rightarrow> (None, t\<lparr>decision_db := db\<rparr>)) kvs t =
         (None, t\<lparr>decision_db := (decision_db t)\<lparr>disk := (disk (decision_db t))
            (dir := filter (\<lambda>e. fst e \<notin> fst ` set kvs) (disk (decision_db t) dir))\<rparr>\<rparr>)"
  using assms
proof (induction kvs arbitrary: t)
  case Nil
  then show ?case by simp
next
  case (Cons kv kvs)
  let ?t = "t\<lparr>decision_db := (decision_db t)\<lparr>disk := (disk (decision_db t))
              (dir := filter (\<lambda>e. fst e \<noteq> fst kv) (disk (decision_db t) dir))\<rparr>\<rparr>"
  have "opened_at (decision_db ?t) = Some dir" using Cons.prems by simp
  from Cons.IH [OF this] Cons.prems show ?case
    by (simp add: lm_remove_def conj_commute cong: if_cong)
qed


lemma remove_all_ballots:
  assumes "opened_at (ballot_db t) = Some dir"
  shows "for_each (\<lambda>kv t. case lm_remove (fst kv) (ballot_db t) of
                              Inl e \<Rightarrow> (Some e, t)
                            | Inr db \<Rightarrow> (None, t\<lparr>ballot_db := db\<rparr>)) kvs t =
         (None, t\<lparr>ballot_db := (ballot_db t)\<lparr>disk := (disk (ballot_db t))
            (dir := filter (\<lambda>e. fst e \<notin> fst ` set kvs) (disk (ballot_db t) dir))\<rparr>\<rparr>)"
  using assms
proof (induction kvs arbitrary: t)
  case Nil
  then show ?case by simp
next
  case (Cons kv kvs)
  let ?t = "t\<lparr>ballot_db := (ballot_db t)\<lparr>disk := (disk (ballot_db t))
              (dir := filter (\<lambda>e. fst e \<noteq> fst kv) (disk (ballot_db t) dir))\<rparr>\<rparr>"
  have "opened_at (ballot_db ?t) = Some dir" using Cons.prems by simp
  from Cons.IH [OF this] Cons.prems show ?case
    by (simp add: lm_remove_def conj_commute cong: if_cong)
qed

lemma remove_all_contests:
  assumes "opened_at (contest_db t) = Some dir"
  shows "for_each (\<lambda>kv t. case lm_remove (fst kv) (contest_db t) of
                              Inl e \<Rightarrow> (Some e, t)
                            | Inr db \<Rightarrow> (None, t\<lparr>contest_db := db\<rparr>)) kvs t =
         (None, t\<lparr>contest_db := (contest_db t)\<lparr>disk := (disk (contest_db t))
            (dir := filter (\<lambda>e. fst e \<notin> fst ` set kvs) (disk (contest_db t) dir))\<rparr>\<rparr>)"
  using assms
proof (induction kvs arbitrary: t)
  case Nil
  then show ?case by simp
next
  case (Cons kv kvs)
  let ?t = "t\<lparr>contest_db := (contest_db t)\<lparr>disk := (disk (contest_db t))
              (dir := filter (\<lambda>e. fst e \<noteq> fst kv) (disk (contest_db t) dir))\<rparr>\<rparr>"
  have "opened_at (contest_db ?t) = Some dir" using Cons.prems by simp
  from Cons.IH [OF this] Cons.prems show ?case
    by (simp add: lm_remove_def conj_commute cong: if_cong)
qed

lemma filter_out_own_keys: "filter (\<lambda>e. fst e \<notin> fst ` set es) es = []"
  by (simp add: filter_empty_conv)

lemma wipe_decision_db_open:
  assumes "opened_at (decision_db s) = Some dir"
  shows "wipe_decision_db s =
           (None, s\<lparr>decision_db := (decision_db s)\<lparr>disk := (disk (decision_db s))(dir := [])\<rparr>\<rparr>)"
  using assms
  by (simp add: wipe_decision_db_def lm_iterate_def remove_all_decisions filter_out_own_keys)

lemma wipe_ballot_db_open:
  assumes "opened_at (ballot_db s) = Some dir"
  shows "wipe_ballot_db s =
           (None, s\<lparr>ballot_db := (ballot_db s)\<lparr>disk := (disk (ballot_db s))(dir := [])\<rparr>\<rparr>)"
  using assms
  by (simp add: wipe_ballot_db_def lm_iterate_def remove_all_ballots filter_out_own_keys)

lemma wipe_contest_db_open:
  assumes "opened_at (contest_db s) = Some dir"
  shows "wipe_contest_db s =
           (None, s\<lparr>contest_db := (contest_db s)\<lparr>disk := (disk (contest_db s))(dir := [])\<rparr>\<rparr>)"
  using assms
  by (simp add: wipe_contest_db_def lm_iterate_def remove_all_contests filter_out_own_keys)

lemma clear_impl_fully_open:
  assumes "fully_open s"
  shows "fst (clear_impl s) = None"
    and "databases_open (snd (clear_impl s))"
    and "\<exists>dir. opened_at (decision_db (snd (clear_impl s))) = Some dir \<and>
               disk (decision_db (snd (clear_impl s))) dir = []"
    and "\<exists>dir. opened_at (ballot_db (snd (clear_impl s))) = Some dir \<and>
               disk (ballot_db (snd (clear_impl s))) dir = []"
    and "\<exists>dir. opened_at (contest_db (snd (clear_impl s))) = Some dir \<and>
               disk (contest_db (snd (clear_impl s))) dir = []"
    and "\<exists>t. snd (clear_impl s) = clear_indices t"
proof -
  from assms obtain dd bd cd where o:
    "databases_open s" "opened_at (decision_db s) = Some dd"
    "opened_at (ballot_db s) = Some bd" "opened_at (contest_db s) = Some cd"
    by (auto simp: fully_open_def)
  let ?s1 = "s\<lparr>decision_db := (decision_db s)\<lparr>disk := (disk (decision_db s))(dd := [])\<rparr>\<rparr>"
  let ?s2 = "?s1\<lparr>ballot_db := (ballot_db s)\<lparr>disk := (disk (ballot_db s))(bd := [])\<rparr>\<rparr>"
  let ?s3 = "?s2\<lparr>contest_db := (contest_db s)\<lparr>disk := (disk (contest_db s))(cd := [])\<rparr>\<rparr>"
  have w1: "wipe_decision_db s = (None, ?s1)" using o by (simp add: wipe_decision_db_open)
  have w2: "wipe_ballot_db ?s1 = (None, ?s2)"
    using o wipe_ballot_db_open [of ?s1 bd] by simp
  have w3: "wipe_contest_db ?s2 = (None, ?s3)"
    using o wipe_contest_db_open [of ?s2 cd] by simp
  have eq: "clear_impl s = (None, clear_indices ?s3)"
    using o(1) w1 w2 w3 by (simp add: clear_impl_def and_then_def)
  show "fst (clear_impl s) = None" by (simp add: eq)
  show "databases_open (snd (clear_impl s))" using o(1) by (simp add: eq clear_indices_def)
  show "\<exists>dir. opened_at (decision_db (snd (clear_impl s))) = Some dir \<and>
               disk (decision_db (snd (clear_impl s))) dir = []"
    using o by (simp add: eq clear_indices_def)
  show "\<exists>dir. opened_at (ballot_db (snd (clear_impl s))) = Some dir \<and>
               disk (ballot_db (snd (clear_impl s))) dir = []"
    using o by (simp add: eq clear_indices_def)
  show "\<exists>dir. opened_at (contest_db (snd (clear_impl s))) = Some dir \<and>
               disk (contest_db (snd (clear_impl s))) dir = []"
    using o by (simp add: eq clear_indices_def)
  show "\<exists>t. snd (clear_impl s) = clear_indices t" by (auto simp: eq)
qed

lemma clear_impl_not_open:
  "\<not> databases_open s \<Longrightarrow> clear_impl s = (None, clear_indices s)"
  by (simp add: clear_impl_def and_then_def)


lemma same_stores_update_index:
  "same_stores s t \<Longrightarrow> same_stores s (update_index_decision P i r t)"
  "same_stores s t \<Longrightarrow> same_stores s (update_index_ballot i b t)"
  "same_stores s t \<Longrightarrow> same_stores s (update_index_contest i c t)"
  by (simp_all add: same_stores_def update_index_decision_def update_index_ballot_def
      update_index_contest_def)

lemma same_stores_for_each:
  "(\<And>x t. same_stores s t \<Longrightarrow> same_stores s (snd (body x t))) \<Longrightarrow>
   same_stores s t \<Longrightarrow> same_stores s (snd (for_each body xs t))"
  by (rule for_each_invariant)

lemma same_stores_reindex:
  "same_stores s t \<Longrightarrow> same_stores s (snd (for_each (reindex_decision P) kvs t))"
  "same_stores s t \<Longrightarrow>
     same_stores s (snd (for_each (\<lambda>kv t. (None, update_index_ballot (fst kv) (snd kv) t)) bs t))"
  "same_stores s t \<Longrightarrow>
     same_stores s (snd (for_each (\<lambda>kv t. (None, update_index_contest (fst kv) (snd kv) t)) cs t))"
  by (auto intro!: same_stores_for_each
      simp: reindex_decision_def same_stores_update_index split: sum.splits)

lemma open_decision_db_stores:
  assumes "fst (open_decision_db P dir s) = None"
  shows "opened_at (decision_db (snd (open_decision_db P dir s))) \<noteq> None"
    and "ballot_db (snd (open_decision_db P dir s)) = ballot_db s"
    and "contest_db (snd (open_decision_db P dir s)) = contest_db s"
    and "databases_open (snd (open_decision_db P dir s)) = databases_open s"
proof -
  from assms obtain db where db: "lm_open (dir @ ''/decision_db'') (decision_db s) = Inr db"
    by (auto simp: open_decision_db_def split: sum.splits)
  then have o: "opened_at db \<noteq> None" by (auto simp: lm_open_def split: option.splits)
  let ?t = "s\<lparr>decision_db := db\<rparr>"
  have eq: "open_decision_db P dir s = for_each (reindex_decision P) (disk db (the (opened_at db))) ?t"
    using db o by (auto simp: open_decision_db_def lm_iterate_def split: option.splits)
  have "same_stores ?t ?t" by (simp add: same_stores_def)
  then have "same_stores ?t (snd (open_decision_db P dir s))"
    unfolding eq by (rule same_stores_reindex)
  then show "opened_at (decision_db (snd (open_decision_db P dir s))) \<noteq> None"
    and "ballot_db (snd (open_decision_db P dir s)) = ballot_db s"
    and "contest_db (snd (open_decision_db P dir s)) = contest_db s"
    and "databases_open (snd (open_decision_db P dir s)) = databases_open s"
    using o by (simp_all add: same_stores_def)
qed

lemma open_ballot_db_stores:
  assumes "fst (open_ballot_db dir s) = None"
  shows "opened_at (ballot_db (snd (open_ballot_db dir s))) \<noteq> None"
    and "decision_db (snd (open_ballot_db dir s)) = decision_db s"
    and "contest_db (snd (open_ballot_db dir s)) = contest_db s"
    and "databases_open (snd (open_ballot_db dir s)) = databases_open s"
proof -
  from assms obtain db where db: "lm_open (dir @ ''/ballot_db'') (ballot_db s) = Inr db"
    by (auto simp: open_ballot_db_def split: sum.splits)
  then have o: "opened_at db \<noteq> None" by (auto simp: lm_open_def split: option.splits)
  let ?t = "s\<lparr>ballot_db := db\<rparr>"
  have eq: "open_ballot_db dir s =
              for_each (\<lambda>kv t. (None, update_index_ballot (fst kv) (snd kv) t))
                (disk db (the (opened_at db))) ?t"
    using db o by (auto simp: open_ballot_db_def lm_iterate_def split: option.splits)
  have "same_stores ?t ?t" by (simp add: same_stores_def)
  then have "same_stores ?t (snd (open_ballot_db dir s))"
    unfolding eq by (rule same_stores_reindex)
  then show "opened_at (ballot_db (snd (open_ballot_db dir s))) \<noteq> None"
    and "decision_db (snd (open_ballot_db dir s)) = decision_db s"
    and "contest_db (snd (open_ballot_db dir s)) = contest_db s"
    and "databases_open (snd (open_ballot_db dir s)) = databases_open s"
    using o by (simp_all add: same_stores_def)
qed

lemma open_contest_db_stores:
  assumes "fst (open_contest_db dir s) = None"
  shows "opened_at (contest_db (snd (open_contest_db dir s))) \<noteq> None"
    and "decision_db (snd (open_contest_db dir s)) = decision_db s"
    and "ballot_db (snd (open_contest_db dir s)) = ballot_db s"
    and "databases_open (snd (open_contest_db dir s)) = databases_open s"
proof -
  from assms obtain db where db: "lm_open (dir @ ''/contest_db'') (contest_db s) = Inr db"
    by (auto simp: open_contest_db_def split: sum.splits)
  then have o: "opened_at db \<noteq> None" by (auto simp: lm_open_def split: option.splits)
  let ?t = "s\<lparr>contest_db := db\<rparr>"
  have eq: "open_contest_db dir s =
              for_each (\<lambda>kv t. (None, update_index_contest (fst kv) (snd kv) t))
                (disk db (the (opened_at db))) ?t"
    using db o by (auto simp: open_contest_db_def lm_iterate_def split: option.splits)
  have "same_stores ?t ?t" by (simp add: same_stores_def)
  then have "same_stores ?t (snd (open_contest_db dir s))"
    unfolding eq by (rule same_stores_reindex)
  then show "opened_at (contest_db (snd (open_contest_db dir s))) \<noteq> None"
    and "decision_db (snd (open_contest_db dir s)) = decision_db s"
    and "ballot_db (snd (open_contest_db dir s)) = ballot_db s"
    and "databases_open (snd (open_contest_db dir s)) = databases_open s"
    using o by (simp_all add: same_stores_def)
qed

lemma and_then_None:
  "fst (and_then f g s) = None \<longleftrightarrow> fst (f s) = None \<and> fst (g (snd (f s))) = None"
  by (cases "f s") (auto simp: and_then_def split: option.splits)

lemma and_then_snd:
  "fst (f s) = None \<Longrightarrow> snd (and_then f g s) = snd (g (snd (f s)))"
  by (cases "f s") (auto simp: and_then_def)

lemma open_impl_fully_open:
  assumes "fst (ballot_box_open P dir s) = None"
  shows "fully_open (snd (ballot_box_open P dir s))"
proof -
  let ?s1 = "snd (open_decision_db P dir s)"
  let ?s2 = "snd (open_ballot_db dir ?s1)"
  let ?s3 = "snd (open_contest_db dir ?s2)"
  from assms have closed: "\<not> databases_open s"
    by (auto simp: ballot_box_open_def open_impl_def split: if_splits)
  with assms have ok: "fst (open_decision_db P dir s) = None"
    "fst (open_ballot_db dir ?s1) = None" "fst (open_contest_db dir ?s2) = None"
    by (simp_all add: ballot_box_open_def open_impl_def and_then_None)
  then have res: "snd (ballot_box_open P dir s) = ?s3\<lparr>databases_open := True\<rparr>"
    using closed by (simp add: ballot_box_open_def open_impl_def and_then_snd)
  show ?thesis
    unfolding res fully_open_def
    using open_decision_db_stores [OF ok(1)] open_ballot_db_stores [OF ok(2)]
      open_contest_db_stores [OF ok(3)]
    by simp
qed

lemma fully_open_perform_store:
  assumes "fully_open s" and "is_store c"
  shows "fully_open (snd (perform P c s))"
  using assms
  by (cases c)
     (auto simp: fully_open_def store_new_decision_def store_record_decision_def
        store_ballot_def store_record_ballot_def store_contest_def store_record_contest_def
        Let_def lm_store_def update_index_decision_def update_index_ballot_def
        update_index_contest_def split: sum.splits option.splits)

lemma fully_open_run_stores:
  "fully_open s \<Longrightarrow> list_all is_store cs \<Longrightarrow> fully_open (run P cs s)"
  by (induction cs arbitrary: s) (simp_all add: fully_open_perform_store)


lemma fetch_from_empty:
  "opened_at db = Some dir \<Longrightarrow> disk db dir = [] \<Longrightarrow> lm_fetch i db = Inl NotFound"
  by (simp add: lm_fetch_def)

text \<open>
  C5. A ballot box is opened, any number of records of the three kinds are stored,
  and \<^verbatim>\<open>clear\<close> is called: it succeeds, every query then returns an empty result,
  the fetch of any id from any of the three stores fails with NotFound, and the
  ballot box is as open as before. Called on a ballot box that is not open,
  \<^verbatim>\<open>clear\<close> leaves the three stores as they are and empties the indices all the
  same.
\<close>

theorem clear_wipes_everything:
  "(fst (ballot_box_open P dir s0) = None \<and> list_all is_store calls \<longrightarrow>
      (let s = run P calls (snd (ballot_box_open P dir s0));
           s' = snd (ballot_box_clear s)
       in fst (ballot_box_clear s) = None \<and>
          answers_nothing voter i k v s' \<and>
          get_decision i s' = Inl NotFound \<and>
          get_ballot i s' = Inl NotFound \<and>
          get_contest i s' = Inl NotFound \<and>
          is_open s' = is_open s)) \<and>
   (\<not> is_open t \<longrightarrow>
      (let t' = snd (ballot_box_clear t)
       in fst (ballot_box_clear t) = None \<and>
          answers_nothing voter i k v t' \<and>
          decision_db t' = decision_db t \<and>
          ballot_db t' = ballot_db t \<and>
          contest_db t' = contest_db t \<and>
          is_open t' = is_open t))"
proof (intro conjI impI)
  assume "fst (ballot_box_open P dir s0) = None \<and> list_all is_store calls"
  then have fo: "fully_open (run P calls (snd (ballot_box_open P dir s0)))"
    by (simp add: open_impl_fully_open fully_open_run_stores)
  let ?s = "run P calls (snd (ballot_box_open P dir s0))"
  let ?s' = "snd (clear_impl ?s)"
  note c = clear_impl_fully_open [OF fo]
  from c(6) obtain u where u: "?s' = clear_indices u" ..
  have "answers_nothing voter i k v ?s'"
    unfolding u by (rule answers_nothing_clear_indices)
  moreover have "get_decision i ?s' = Inl NotFound"
    using c(3) by (auto simp: get_decision_def fetch_from_empty)
  moreover have "get_ballot i ?s' = Inl NotFound"
    using c(4) by (auto simp: get_ballot_def fetch_from_empty)
  moreover have "get_contest i ?s' = Inl NotFound"
    using c(5) by (auto simp: get_contest_def fetch_from_empty)
  moreover have "is_open ?s' = is_open ?s"
    using c(2) fo by (simp add: is_open_def fully_open_def)
  ultimately show
    "let s = run P calls (snd (ballot_box_open P dir s0));
         s' = snd (ballot_box_clear s)
     in fst (ballot_box_clear s) = None \<and>
        answers_nothing voter i k v s' \<and>
        get_decision i s' = Inl NotFound \<and>
        get_ballot i s' = Inl NotFound \<and>
        get_contest i s' = Inl NotFound \<and>
        is_open s' = is_open s"
    using c(1) by (simp add: Let_def ballot_box_clear_def)
next
  assume "\<not> is_open t"
  then have "ballot_box_clear t = (None, clear_indices t)"
    by (simp add: ballot_box_clear_def is_open_def clear_impl_not_open)
  then show
    "let t' = snd (ballot_box_clear t)
     in fst (ballot_box_clear t) = None \<and>
        answers_nothing voter i k v t' \<and>
        decision_db t' = decision_db t \<and>
        ballot_db t' = ballot_db t \<and>
        contest_db t' = contest_db t \<and>
        is_open t' = is_open t"
    by (simp add: Let_def answers_nothing_clear_indices) (simp add: clear_indices_def is_open_def)
qed

theorem clear_wipes_everything_witness:
  "fst (ballot_box_open example_params ''data'' empty_box) = None \<and>
   list_all is_store
     [Store_contest contest_a, Store_ballot ballot_a, Store_new_decision decision_a] \<and>
   (let s = run example_params
              [Store_contest contest_a, Store_ballot ballot_a, Store_new_decision decision_a]
              (snd (ballot_box_open example_params ''data'' empty_box));
        s' = snd (ballot_box_clear s)
    in fst (ballot_box_clear s) = None \<and>
       answers_nothing 0 3 ''region'' ''north'' s' \<and>
       get_decision 3 s' = Inl NotFound \<and>
       get_ballot 3 s' = Inl NotFound \<and>
       get_contest 3 s' = Inl NotFound \<and>
       is_open s' = is_open s) \<and>
   \<not> is_open (empty_box\<lparr>contest_by_contestant_index := [(''Bob'', 3)]\<rparr>) \<and>
   (let t' = snd (ballot_box_clear (empty_box\<lparr>contest_by_contestant_index := [(''Bob'', 3)]\<rparr>))
    in fst (ballot_box_clear (empty_box\<lparr>contest_by_contestant_index := [(''Bob'', 3)]\<rparr>)) = None \<and>
       answers_nothing 0 3 ''region'' ''north'' t' \<and>
       decision_db t' = decision_db (empty_box\<lparr>contest_by_contestant_index := [(''Bob'', 3)]\<rparr>) \<and>
       ballot_db t' = ballot_db (empty_box\<lparr>contest_by_contestant_index := [(''Bob'', 3)]\<rparr>) \<and>
       contest_db t' = contest_db (empty_box\<lparr>contest_by_contestant_index := [(''Bob'', 3)]\<rparr>) \<and>
       is_open t' = is_open (empty_box\<lparr>contest_by_contestant_index := [(''Bob'', 3)]\<rparr>))"
proof -
  have h1: "fst (ballot_box_open example_params ''data'' empty_box) = None"
    by code_simp
  have h2: "list_all is_store
              [Store_contest contest_a, Store_ballot ballot_a, Store_new_decision decision_a]"
    by simp
  have h3: "\<not> is_open (empty_box\<lparr>contest_by_contestant_index := [(''Bob'', 3)]\<rparr>)"
    by (simp add: is_open_def empty_box_def new_ballot_box_def)
  from clear_wipes_everything
         [where P = example_params and dir = "''data''" and ?s0.0 = empty_box
            and calls = "[Store_contest contest_a, Store_ballot ballot_a,
                          Store_new_decision decision_a]"
            and voter = 0 and i = 3 and k = "''region''" and v = "''north''"
            and t = "empty_box\<lparr>contest_by_contestant_index := [(''Bob'', 3)]\<rparr>"]
       h1 h2 h3
  show ?thesis by blast
qed

section \<open>The tag queries\<close>

lemma for_each_Cons_None:
  "fst (for_each body (x # xs) s) = None \<longleftrightarrow>
     fst (body x s) = None \<and> fst (for_each body xs (snd (body x s))) = None"
  by (cases "body x s") (auto split: option.splits)

lemma for_each_Cons_snd:
  "fst (body x s) = None \<Longrightarrow>
     snd (for_each body (x # xs) s) = snd (for_each body xs (snd (body x s)))"
  by (cases "body x s") auto

lemma store_contest_tags_index:
  assumes "fst (store_contest P c s) = None"
  shows "mset (contest_tags_index (snd (store_contest P c s))) =
           mset (contest_tags_index s) + mset (tag_entries P c)"
  using assms
  by (auto simp: store_contest_def store_record_contest_def Let_def update_index_contest_def
      tag_entries_def
      mset_foldl_ordered_insert
        [where g = "\<lambda>t. \<lparr>tag_key = fst t, tag_value = snd t, tag_contest_id = contest_id_of P c\<rparr>"]
      split: sum.splits)

lemma store_contests_tags_index:
  assumes "fst (for_each (store_contest P) cs s) = None"
  shows "mset (contest_tags_index (snd (for_each (store_contest P) cs s))) =
           mset (contest_tags_index s) + mset (concat (map (tag_entries P) cs))"
  using assms
proof (induction cs arbitrary: s)
  case Nil
  then show ?case by simp
next
  case (Cons c cs)
  from Cons.prems have ok: "fst (store_contest P c s) = None"
    "fst (for_each (store_contest P) cs (snd (store_contest P c s))) = None"
    by (simp_all only: for_each_Cons_None)
  have step: "snd (for_each (store_contest P) (c # cs) s) =
              snd (for_each (store_contest P) cs (snd (store_contest P c s)))"
    by (rule for_each_Cons_snd [where body = "store_contest P", OF ok(1)])
  show ?case
    unfolding step
    by (simp add: Cons.IH [OF ok(2)] store_contest_tags_index [OF ok(1)])
qed

lemma reachable_store_contests:
  "reachable P s \<Longrightarrow> reachable P (snd (for_each (store_contest P) cs s))"
proof (rule for_each_invariant)
  fix c t
  assume "reachable P t"
  then have "reachable P (snd (perform P (Store_contest c) t))" by (rule reachable_step)
  then show "reachable P (snd (store_contest P c t))" by simp
qed

lemma reachable_run: "reachable P s \<Longrightarrow> reachable P (run P cs s)"
  by (induction cs arbitrary: s) (simp_all add: reachable_step)

lemma reachable_empty_box: "reachable P empty_box"
  unfolding empty_box_def by (rule reachable_new)

lemma get_contests_by_tags_ordered:
  assumes "indices_ordered s"
  shows "get_contests_by_tags k [] s =
           map tag_contest_id (filter (\<lambda>r. tag_key r = k) (contest_tags_index s))"
    and "v \<noteq> [] \<Longrightarrow> get_contests_by_tags k v s =
           map tag_contest_id (filter (\<lambda>r. by_tags r = (k, v)) (contest_tags_index s))"
proof -
  from assms have srt: "sorted (map by_tags (contest_tags_index s))"
    by (simp add: indices_ordered_def)
  then have skey: "sorted (map tag_key (contest_tags_index s))"
    by (rule sorted_by_tags_imp_sorted_key)
  show "get_contests_by_tags k [] s =
          map tag_contest_id (filter (\<lambda>r. tag_key r = k) (contest_tags_index s))"
    by (simp add: get_contests_by_tags_def Let_def equal_range_sorted [OF skey])
  show "v \<noteq> [] \<Longrightarrow> get_contests_by_tags k v s =
          map tag_contest_id (filter (\<lambda>r. by_tags r = (k, v)) (contest_tags_index s))"
    by (simp add: get_contests_by_tags_def Let_def equal_range_sorted [OF srt])
qed

lemma ids_of_tag_entries:
  "map tag_contest_id (filter (\<lambda>r. tag_key r = k) (concat (map (tag_entries P) cs))) =
     tagged_with_key P k cs"
  "map tag_contest_id (filter (\<lambda>r. by_tags r = (k, v)) (concat (map (tag_entries P) cs))) =
     tagged_with_pair P k v cs"
  by (induction cs)
     (simp_all add: tagged_with_key_def tagged_with_pair_def tag_entries_def filter_map
        comp_def by_tags_def prod_eq_iff)

lemma mset_map_filter_cong:
  "mset xs = mset ys + mset zs \<Longrightarrow>
     mset (map f (filter p xs)) = mset (map f (filter p ys)) + mset (map f (filter p zs))"
proof -
  assume "mset xs = mset ys + mset zs"
  then have "image_mset f (filter_mset p (mset xs)) =
             image_mset f (filter_mset p (mset ys + mset zs))" by simp
  then show ?thesis by simp
qed

text \<open>
  C8. Contests are stored in a reachable ballot box, each store succeeding. With
  the empty string as the value, \<^verbatim>\<open>get_contests_by_tags\<close> then returns what it
  returned before and, for each stored contest, its id once for each of its tags with
  the key, whatever the value: a contest with two values for the key is there twice.
  With any other value it returns what it returned before and the id of each stored
  contest once for each of its tags that is exactly the pair. Results are compared
  as multisets.
\<close>

theorem get_contests_by_tags_complete:
  assumes "reachable P s0" and "fst (for_each (store_contest P) cs s0) = None"
  shows "mset (get_contests_by_tags k [] (snd (for_each (store_contest P) cs s0))) =
           mset (get_contests_by_tags k [] s0) + mset (tagged_with_key P k cs) \<and>
         (v \<noteq> [] \<longrightarrow>
            mset (get_contests_by_tags k v (snd (for_each (store_contest P) cs s0))) =
              mset (get_contests_by_tags k v s0) + mset (tagged_with_pair P k v cs))"
proof -
  let ?s = "snd (for_each (store_contest P) cs s0)"
  have o0: "indices_ordered s0" using assms(1) by (rule reachable_indices_ordered)
  have o: "indices_ordered ?s"
    by (rule reachable_indices_ordered [OF reachable_store_contests [OF assms(1)]])
  note idx = store_contests_tags_index [OF assms(2)]
  have k1: "mset (map tag_contest_id (filter (\<lambda>r. tag_key r = k) (contest_tags_index ?s))) =
            mset (map tag_contest_id (filter (\<lambda>r. tag_key r = k) (contest_tags_index s0))) +
            mset (tagged_with_key P k cs)"
    using mset_map_filter_cong [OF idx, of tag_contest_id "\<lambda>r. tag_key r = k"]
    by (simp only: ids_of_tag_entries)
  have k2: "mset (map tag_contest_id (filter (\<lambda>r. by_tags r = (k, v)) (contest_tags_index ?s))) =
            mset (map tag_contest_id (filter (\<lambda>r. by_tags r = (k, v)) (contest_tags_index s0))) +
            mset (tagged_with_pair P k v cs)"
    using mset_map_filter_cong [OF idx, of tag_contest_id "\<lambda>r. by_tags r = (k, v)"]
    by (simp only: ids_of_tag_entries)
  show ?thesis
  proof (intro conjI impI)
    show "mset (get_contests_by_tags k [] ?s) =
            mset (get_contests_by_tags k [] s0) + mset (tagged_with_key P k cs)"
      using k1
      by (simp only: get_contests_by_tags_ordered(1) [OF o] get_contests_by_tags_ordered(1) [OF o0])
  next
    assume v: "v \<noteq> []"
    show "mset (get_contests_by_tags k v ?s) =
            mset (get_contests_by_tags k v s0) + mset (tagged_with_pair P k v cs)"
      using k2
      by (simp only: get_contests_by_tags_ordered(2) [OF o v]
          get_contests_by_tags_ordered(2) [OF o0 v])
  qed
qed


lemma values_of_tag_entries:
  "tag_value ` {r \<in> set (concat (map (tag_entries P) cs)). tag_key r = k} =
     {v. \<exists>c\<in>set cs. (k, v) \<in> set (tags c)}"
  by (force simp: tag_entries_def)

text \<open>
  C7. Contests are stored in a reachable ballot box, each store succeeding.
  \<^verbatim>\<open>get_values_by_tag\<close> returns, before and after; after, its result is in
  ascending order, has no value twice, and holds the values it held before and
  every value a stored contest has under the key.
\<close>

theorem get_values_by_tag_complete:
  assumes "reachable P s0" and "fst (for_each (store_contest P) cs s0) = None"
  shows "\<exists>vs0 vs.
           get_values_by_tag k s0 = Some vs0 \<and>
           get_values_by_tag k (snd (for_each (store_contest P) cs s0)) = Some vs \<and>
           sorted vs \<and> distinct vs \<and>
           set vs = set vs0 \<union> {v. \<exists>c\<in>set cs. (k, v) \<in> set (tags c)}"
proof -
  let ?s = "snd (for_each (store_contest P) cs s0)"
  let ?vals = "\<lambda>s. map tag_value (filter (\<lambda>r. tag_key r = k) (contest_tags_index s))"
  have o0: "sorted (map by_tags (contest_tags_index s0))"
    using reachable_indices_ordered [OF assms(1)] by (simp add: indices_ordered_def)
  have o: "sorted (map by_tags (contest_tags_index ?s))"
    using reachable_indices_ordered [OF reachable_store_contests [OF assms(1)]]
    by (simp add: indices_ordered_def)
  have g0: "get_values_by_tag k s0 = Some (remdups_adj (?vals s0))"
    using o0 by (rule get_values_by_tag_sorted)
  have g: "get_values_by_tag k ?s = Some (remdups_adj (?vals ?s))"
    using o by (rule get_values_by_tag_sorted)
  have srt: "sorted (?vals ?s)" using o by (rule sorted_values_of_key)
  have "set (contest_tags_index ?s) =
          set (contest_tags_index s0) \<union> set (concat (map (tag_entries P) cs))"
    using store_contests_tags_index [OF assms(2)] by (metis set_mset_mset set_mset_union)
  then have "set (?vals ?s) =
          set (?vals s0) \<union> tag_value ` {r \<in> set (concat (map (tag_entries P) cs)). tag_key r = k}"
    by auto
  then have st: "set (remdups_adj (?vals ?s)) =
          set (remdups_adj (?vals s0)) \<union> {v. \<exists>c\<in>set cs. (k, v) \<in> set (tags c)}"
    by (simp only: remdups_adj_set values_of_tag_entries)
  show ?thesis
    using g0 g srt st by (auto simp: distinct_remdups_adj_sorted)
qed

theorem get_values_by_tag_complete_witness:
  "reachable example_params (run example_params [Open ''data''] empty_box) \<and>
   fst (for_each (store_contest example_params) [contest_a]
          (run example_params [Open ''data''] empty_box)) = None \<and>
   (\<exists>vs0 vs.
      get_values_by_tag ''region'' (run example_params [Open ''data''] empty_box) = Some vs0 \<and>
      get_values_by_tag ''region''
        (snd (for_each (store_contest example_params) [contest_a]
                (run example_params [Open ''data''] empty_box))) = Some vs \<and>
      sorted vs \<and> distinct vs \<and>
      set vs = set vs0 \<union> {v. \<exists>c\<in>set [contest_a]. (''region'', v) \<in> set (tags c)}) \<and>
   get_values_by_tag ''region''
     (snd (for_each (store_contest example_params) [contest_a]
             (run example_params [Open ''data''] empty_box))) = Some [''north'', ''south'']"
proof -
  have h1: "reachable example_params (run example_params [Open ''data''] empty_box)"
    by (rule reachable_run [OF reachable_empty_box])
  have h2: "fst (for_each (store_contest example_params) [contest_a]
                   (run example_params [Open ''data''] empty_box)) = None"
    by code_simp
  have h3: "get_values_by_tag ''region''
     (snd (for_each (store_contest example_params) [contest_a]
             (run example_params [Open ''data''] empty_box))) = Some [''north'', ''south'']"
    by code_simp
  from get_values_by_tag_complete [OF h1 h2, of "''region''"] h1 h2 h3
  show ?thesis by blast
qed

theorem get_contests_by_tags_complete_witness:
  "reachable example_params (run example_params [Open ''data''] empty_box) \<and>
   fst (for_each (store_contest example_params) [contest_a]
          (run example_params [Open ''data''] empty_box)) = None \<and>
   mset (get_contests_by_tags ''region'' []
           (snd (for_each (store_contest example_params) [contest_a]
                   (run example_params [Open ''data''] empty_box)))) =
     mset (get_contests_by_tags ''region'' [] (run example_params [Open ''data''] empty_box)) +
     mset (tagged_with_key example_params ''region'' [contest_a]) \<and>
   mset (get_contests_by_tags ''region'' ''north''
           (snd (for_each (store_contest example_params) [contest_a]
                   (run example_params [Open ''data''] empty_box)))) =
     mset (get_contests_by_tags ''region'' ''north''
             (run example_params [Open ''data''] empty_box)) +
     mset (tagged_with_pair example_params ''region'' ''north'' [contest_a]) \<and>
   get_contests_by_tags ''region'' []
     (snd (for_each (store_contest example_params) [contest_a]
             (run example_params [Open ''data''] empty_box))) = [3, 3] \<and>
   get_contests_by_tags ''region'' ''north''
     (snd (for_each (store_contest example_params) [contest_a]
             (run example_params [Open ''data''] empty_box))) = [3]"
proof -
  have h1: "reachable example_params (run example_params [Open ''data''] empty_box)"
    by (rule reachable_run [OF reachable_empty_box])
  have h2: "fst (for_each (store_contest example_params) [contest_a]
                   (run example_params [Open ''data''] empty_box)) = None"
    by code_simp
  have h3: "''north'' \<noteq> ([] :: string)" by simp
  have h4: "get_contests_by_tags ''region'' []
     (snd (for_each (store_contest example_params) [contest_a]
             (run example_params [Open ''data''] empty_box))) = [3, 3]"
    by code_simp
  have h5: "get_contests_by_tags ''region'' ''north''
     (snd (for_each (store_contest example_params) [contest_a]
             (run example_params [Open ''data''] empty_box))) = [3]"
    by code_simp
  from get_contests_by_tags_complete [OF h1 h2, of "''region''" "''north''"] h1 h2 h3 h4 h5
  show ?thesis by blast
qed

section \<open>Storing the same record twice\<close>

lemma upsert_upsert: "upsert k v (upsert k v es) = upsert k v es"
  by (induction es) auto

lemma lm_store_twice:
  assumes "lm_store k v db = Inr db1"
  shows "lm_store k v db1 = Inr db1"
  using assms by (auto simp: lm_store_def upsert_upsert split: option.splits)

lemma snd_filter_pairs:
  "map snd (filter (\<lambda>e. fst e = k) (map (\<lambda>x. (g x, i)) xs)) =
     replicate (count_list (map g xs) k) i"
  by (induction xs) auto

lemma multimap_query_insert:
  assumes "sorted (map fst idx)"
  shows "mset (map snd (equal_range fst k
                 (foldl (\<lambda>idx x. ordered_insert fst (g x, i) idx) idx xs))) =
         mset (map snd (equal_range fst k idx)) + mset (replicate (count_list (map g xs) k) i)"
proof -
  let ?idx' = "foldl (\<lambda>idx x. ordered_insert fst (g x, i) idx) idx xs"
  have s': "sorted (map fst ?idx')"
    using assms by (rule sorted_foldl_ordered_insert [where g = "\<lambda>x. (g x, i)"])
  have m: "mset ?idx' = mset idx + mset (map (\<lambda>x. (g x, i)) xs)"
    by (rule mset_foldl_ordered_insert [where g = "\<lambda>x. (g x, i)"])
  show ?thesis
    using mset_map_filter_cong [OF m, of snd "\<lambda>e. fst e = k"]
    by (simp only: equal_range_sorted [OF s'] equal_range_sorted [OF assms] snd_filter_pairs)
qed

lemma store_ballot_query:
  assumes "indices_ordered s" and "fst (store_ballot P b s) = None"
  shows "mset (get_ballots_by_contest c (snd (store_ballot P b s))) =
           mset (get_ballots_by_contest c s) +
           mset (replicate (count_list (contests b) c) (ballot_id_of P b))"
proof -
  from assms(1) have srt: "sorted (map fst (ballot_by_contest_index s))"
    by (simp add: indices_ordered_def)
  from assms(2) obtain db where "lm_store (ballot_id_of P b) b (ballot_db s) = Inr db"
    by (auto simp: store_ballot_def store_record_ballot_def Let_def split: sum.splits)
  then have "ballot_by_contest_index (snd (store_ballot P b s)) =
               foldl (\<lambda>idx c. ordered_insert fst (c, ballot_id_of P b) idx)
                 (ballot_by_contest_index s) (contests b)"
    by (simp add: store_ballot_def store_record_ballot_def Let_def update_index_ballot_def)
  then show ?thesis
    using multimap_query_insert [OF srt, of c "\<lambda>x. x" "ballot_id_of P b" "contests b"]
    by (simp add: get_ballots_by_contest_def)
qed

lemma store_contest_query:
  assumes "indices_ordered s" and "fst (store_contest P ct s) = None"
  shows "mset (get_contests_by_contestant n (snd (store_contest P ct s))) =
           mset (get_contests_by_contestant n s) +
           mset (replicate (count_list (map name (contestants ct)) n) (contest_id_of P ct))"
proof -
  from assms(1) have srt: "sorted (map fst (contest_by_contestant_index s))"
    by (simp add: indices_ordered_def)
  from assms(2) obtain db where "lm_store (contest_id_of P ct) ct (contest_db s) = Inr db"
    by (auto simp: store_contest_def store_record_contest_def Let_def split: sum.splits)
  then have "contest_by_contestant_index (snd (store_contest P ct s)) =
               foldl (\<lambda>idx c. ordered_insert fst (name c, contest_id_of P ct) idx)
                 (contest_by_contestant_index s) (contestants ct)"
    by (simp add: store_contest_def store_record_contest_def Let_def update_index_contest_def)
  then show ?thesis
    using multimap_query_insert [OF srt, of n name "contest_id_of P ct" "contestants ct"]
    by (simp add: get_contests_by_contestant_def)
qed

lemma store_ballot_twice:
  assumes "fst (store_ballot P b s) = None"
  shows "fst (store_ballot P b (snd (store_ballot P b s))) = None"
    and "ballot_db (snd (store_ballot P b (snd (store_ballot P b s)))) =
         ballot_db (snd (store_ballot P b s))"
proof -
  from assms obtain db where db: "lm_store (ballot_id_of P b) b (ballot_db s) = Inr db"
    by (auto simp: store_ballot_def store_record_ballot_def Let_def split: sum.splits)
  then have 1: "ballot_db (snd (store_ballot P b s)) = db"
    by (simp add: store_ballot_def store_record_ballot_def Let_def update_index_ballot_def)
  note 2 = lm_store_twice [OF db]
  show "fst (store_ballot P b (snd (store_ballot P b s))) = None"
    using 1 2 by (simp add: store_ballot_def [of P b "snd (store_ballot P b s)"]
        store_record_ballot_def Let_def)
  show "ballot_db (snd (store_ballot P b (snd (store_ballot P b s)))) =
        ballot_db (snd (store_ballot P b s))"
    using 1 2 by (simp add: store_ballot_def [of P b "snd (store_ballot P b s)"]
        store_record_ballot_def Let_def update_index_ballot_def)
qed

lemma store_contest_twice:
  assumes "fst (store_contest P c s) = None"
  shows "fst (store_contest P c (snd (store_contest P c s))) = None"
    and "contest_db (snd (store_contest P c (snd (store_contest P c s)))) =
         contest_db (snd (store_contest P c s))"
proof -
  from assms obtain db where db: "lm_store (contest_id_of P c) c (contest_db s) = Inr db"
    by (auto simp: store_contest_def store_record_contest_def Let_def split: sum.splits)
  then have 1: "contest_db (snd (store_contest P c s)) = db"
    by (simp add: store_contest_def store_record_contest_def Let_def update_index_contest_def)
  note 2 = lm_store_twice [OF db]
  show "fst (store_contest P c (snd (store_contest P c s))) = None"
    using 1 2 by (simp add: store_contest_def [of P c "snd (store_contest P c s)"]
        store_record_contest_def Let_def)
  show "contest_db (snd (store_contest P c (snd (store_contest P c s)))) =
        contest_db (snd (store_contest P c s))"
    using 1 2 by (simp add: store_contest_def [of P c "snd (store_contest P c s)"]
        store_record_contest_def Let_def update_index_contest_def)
qed

lemma store_new_decision_twice:
  assumes "fst (store_new_decision P d s) = None"
  shows "fst (store_new_decision P d (snd (store_new_decision P d s))) = None"
    and "decision_db (snd (store_new_decision P d (snd (store_new_decision P d s)))) =
         decision_db (snd (store_new_decision P d s))"
    and "decision_index (snd (store_new_decision P d (snd (store_new_decision P d s)))) =
         decision_index (snd (store_new_decision P d s))"
proof -
  let ?i = "decision_digest P d"
  let ?s1 = "snd (store_new_decision P d s)"
  from assms obtain r db where r: "decision_storage_record_ctor P d = Inr r"
    and db: "lm_store ?i (as_signed_voter_decision r) (decision_db s) = Inr db"
    by (auto simp: store_new_decision_def store_record_decision_def Let_def split: sum.splits)
  then have s1: "?s1 = update_index_decision P ?i r (s\<lparr>decision_db := db\<rparr>)"
    by (simp add: store_new_decision_def store_record_decision_def Let_def)
  have 1: "decision_db ?s1 = db" by (simp add: s1 update_index_decision_def)
  have 3: "?i \<in> set (map ix_id (decision_index ?s1))"
    by (simp add: s1 update_index_decision_def decision_index_insert_def
        decision_index_record_ctor_def)
  note 2 = lm_store_twice [OF db]
  have s2: "store_new_decision P d ?s1 =
              (None, update_index_decision P ?i r (?s1\<lparr>decision_db := db\<rparr>))"
    using r 1 2 by (simp add: store_new_decision_def [of P d ?s1] store_record_decision_def Let_def)
  show "fst (store_new_decision P d ?s1) = None" by (simp add: s2)
  show "decision_db (snd (store_new_decision P d ?s1)) = decision_db ?s1"
    by (simp add: s2 1 update_index_decision_def)
  show "decision_index (snd (store_new_decision P d ?s1)) = decision_index ?s1"
    using 3 by (simp add: s2 update_index_decision_def decision_index_insert_def
        decision_index_record_ctor_def)
qed

lemma count_list_distinct: "distinct xs \<Longrightarrow> count_list xs x \<le> 1"
  by (induction xs) auto

lemma decision_query_count:
  assumes "indices_ordered s"
  shows "count_list (get_decisions_by_key f k s) i \<le> 1"
proof -
  from assms have "distinct (map ix_id (decision_index s))" by (simp add: indices_ordered_def)
  then have "distinct (map ix_id (filter (\<lambda>x. f x = k) (decision_index s)))"
    by (rule distinct_map_filter)
  then have "count_list (map ix_id (filter (\<lambda>x. f x = k) (decision_index s))) i \<le> 1"
    by (rule count_list_distinct)
  then show ?thesis
    by (simp add: get_decisions_by_key_def hashed_equal_range_def)
qed


lemma replicate_twice: "replicate_mset (2 * m) x = replicate_mset m x + replicate_mset m x"
  by (induction m) simp_all

text \<open>
  C10, as amended. A record is stored twice in a reachable ballot box, the first
  store succeeding. Then the second store succeeds and leaves the durable store as
  the first left it. For a ballot and for a contest every index entry is inserted
  a second time: \<^verbatim>\<open>get_ballots_by_contest\<close>, \<^verbatim>\<open>get_contests_by_contestant\<close> and
  \<^verbatim>\<open>get_contests_by_tags\<close> return the id twice for each listing. For a decision the
  second insert into \<^verbatim>\<open>decision_index\<close>, which is unique by id, is refused: the
  index is what it was after the first store, and no query by voter, contest or
  ballot returns the id more than once.
\<close>

theorem storing_twice:
  assumes "reachable P s"
  shows
   "(fst (store_ballot P b s) = None \<longrightarrow>
       fst (store_ballot P b (run P [Store_ballot b] s)) = None \<and>
       ballot_db (run P [Store_ballot b, Store_ballot b] s) =
         ballot_db (run P [Store_ballot b] s) \<and>
       mset (get_ballots_by_contest c (run P [Store_ballot b, Store_ballot b] s)) =
         mset (get_ballots_by_contest c s) +
         mset (replicate (2 * count_list (contests b) c) (ballot_id_of P b))) \<and>
    (fst (store_contest P ct s) = None \<longrightarrow>
       fst (store_contest P ct (run P [Store_contest ct] s)) = None \<and>
       contest_db (run P [Store_contest ct, Store_contest ct] s) =
         contest_db (run P [Store_contest ct] s) \<and>
       mset (get_contests_by_contestant n (run P [Store_contest ct, Store_contest ct] s)) =
         mset (get_contests_by_contestant n s) +
         mset (replicate (2 * count_list (map name (contestants ct)) n) (contest_id_of P ct)) \<and>
       mset (get_contests_by_tags k [] (run P [Store_contest ct, Store_contest ct] s)) =
         mset (get_contests_by_tags k [] s) + mset (tagged_with_key P k [ct, ct]) \<and>
       (v \<noteq> [] \<longrightarrow>
          mset (get_contests_by_tags k v (run P [Store_contest ct, Store_contest ct] s)) =
            mset (get_contests_by_tags k v s) + mset (tagged_with_pair P k v [ct, ct]))) \<and>
    (fst (store_new_decision P d s) = None \<longrightarrow>
       fst (store_new_decision P d (run P [Store_new_decision d] s)) = None \<and>
       decision_db (run P [Store_new_decision d, Store_new_decision d] s) =
         decision_db (run P [Store_new_decision d] s) \<and>
       decision_index (run P [Store_new_decision d, Store_new_decision d] s) =
         decision_index (run P [Store_new_decision d] s) \<and>
       count_list (get_decisions_by_voter a (run P [Store_new_decision d, Store_new_decision d] s))
         (decision_digest P d) \<le> 1 \<and>
       count_list (get_decisions_by_contest c (run P [Store_new_decision d, Store_new_decision d] s))
         (decision_digest P d) \<le> 1 \<and>
       count_list (get_decisions_by_ballot c (run P [Store_new_decision d, Store_new_decision d] s))
         (decision_digest P d) \<le> 1)"
proof (intro conjI impI)
  note o = reachable_indices_ordered [OF assms]
  {
    assume ok: "fst (store_ballot P b s) = None"
    let ?s1 = "snd (store_ballot P b s)"
    have o1: "indices_ordered ?s1"
      using o by (simp add: store_ballot_def indices_ordered_store_record_ballot)
    note t = store_ballot_twice [OF ok]
    show "fst (store_ballot P b (run P [Store_ballot b] s)) = None"
      using t(1) by simp
    show "ballot_db (run P [Store_ballot b, Store_ballot b] s) =
            ballot_db (run P [Store_ballot b] s)"
      using t(2) by simp
    show "mset (get_ballots_by_contest c (run P [Store_ballot b, Store_ballot b] s)) =
            mset (get_ballots_by_contest c s) +
            mset (replicate (2 * count_list (contests b) c) (ballot_id_of P b))"
      using store_ballot_query [OF o ok, of c] store_ballot_query [OF o1 t(1), of c]
      by (simp add: replicate_twice)
  }
  {
    assume ok: "fst (store_contest P ct s) = None"
    let ?s1 = "snd (store_contest P ct s)"
    let ?s2 = "snd (store_contest P ct ?s1)"
    have o1: "indices_ordered ?s1"
      using o by (simp add: store_contest_def indices_ordered_store_record_contest)
    have o2: "indices_ordered ?s2"
      using o1 by (simp add: store_contest_def indices_ordered_store_record_contest)
    note t = store_contest_twice [OF ok]
    show "fst (store_contest P ct (run P [Store_contest ct] s)) = None"
      using t(1) by simp
    show "contest_db (run P [Store_contest ct, Store_contest ct] s) =
            contest_db (run P [Store_contest ct] s)"
      using t(2) by simp
    show "mset (get_contests_by_contestant n (run P [Store_contest ct, Store_contest ct] s)) =
            mset (get_contests_by_contestant n s) +
            mset (replicate (2 * count_list (map name (contestants ct)) n) (contest_id_of P ct))"
      using store_contest_query [OF o ok, of n] store_contest_query [OF o1 t(1), of n]
      by (simp add: replicate_twice)
    have both: "fst (for_each (store_contest P) [ct, ct] s) = None"
      using ok t(1) by (simp add: for_each_Cons_None del: for_each.simps(2))
    have run2: "snd (for_each (store_contest P) [ct, ct] s) = ?s2"
      using ok t(1) by (simp add: for_each_Cons_snd del: for_each.simps(2))
    have "mset (map tag_contest_id (filter (\<lambda>r. tag_key r = k) (contest_tags_index ?s2))) =
          mset (map tag_contest_id (filter (\<lambda>r. tag_key r = k) (contest_tags_index s))) +
          mset (tagged_with_key P k [ct, ct])"
      using mset_map_filter_cong [OF store_contests_tags_index [OF both],
          of tag_contest_id "\<lambda>r. tag_key r = k"]
      by (simp only: ids_of_tag_entries run2)
    then show "mset (get_contests_by_tags k [] (run P [Store_contest ct, Store_contest ct] s)) =
            mset (get_contests_by_tags k [] s) + mset (tagged_with_key P k [ct, ct])"
      by (simp add: get_contests_by_tags_ordered(1) [OF o2] get_contests_by_tags_ordered(1) [OF o])
    {
      assume v: "v \<noteq> []"
      have "mset (map tag_contest_id
                    (filter (\<lambda>r. by_tags r = (k, v)) (contest_tags_index ?s2))) =
            mset (map tag_contest_id
                    (filter (\<lambda>r. by_tags r = (k, v)) (contest_tags_index s))) +
            mset (tagged_with_pair P k v [ct, ct])"
        using mset_map_filter_cong [OF store_contests_tags_index [OF both],
            of tag_contest_id "\<lambda>r. by_tags r = (k, v)"]
        by (simp only: ids_of_tag_entries run2)
      then show "mset (get_contests_by_tags k v
                         (run P [Store_contest ct, Store_contest ct] s)) =
              mset (get_contests_by_tags k v s) + mset (tagged_with_pair P k v [ct, ct])"
        by (simp add: get_contests_by_tags_ordered(2) [OF o2 v]
            get_contests_by_tags_ordered(2) [OF o v])
    }
  }
  {
    assume ok: "fst (store_new_decision P d s) = None"
    let ?s1 = "snd (store_new_decision P d s)"
    let ?s2 = "snd (store_new_decision P d ?s1)"
    have o2: "indices_ordered ?s2"
      using o by (simp add: store_new_decision_def indices_ordered_store_record_decision)
    note t = store_new_decision_twice [OF ok]
    show "fst (store_new_decision P d (run P [Store_new_decision d] s)) = None"
      using t(1) by simp
    show "decision_db (run P [Store_new_decision d, Store_new_decision d] s) =
            decision_db (run P [Store_new_decision d] s)"
      using t(2) by simp
    show "decision_index (run P [Store_new_decision d, Store_new_decision d] s) =
            decision_index (run P [Store_new_decision d] s)"
      using t(3) by simp
    show "count_list (get_decisions_by_voter a
             (run P [Store_new_decision d, Store_new_decision d] s)) (decision_digest P d) \<le> 1"
      using decision_query_count [OF o2] by (simp add: get_decisions_by_voter_def)
    show "count_list (get_decisions_by_contest c
             (run P [Store_new_decision d, Store_new_decision d] s)) (decision_digest P d) \<le> 1"
      using decision_query_count [OF o2] by (simp add: get_decisions_by_contest_def)
    show "count_list (get_decisions_by_ballot c
             (run P [Store_new_decision d, Store_new_decision d] s)) (decision_digest P d) \<le> 1"
      using decision_query_count [OF o2] by (simp add: get_decisions_by_ballot_def)
  }
qed

text \<open>
  C10 as stated (after the same decision is stored twice, the query results hold its
  id twice) fails: \<open>decision_a\<close>, with digest 292, is stored twice, both stores
  succeed, and each query that finds the id at all finds it once.
\<close>

theorem stored_twice_found_once:
  "fst (store_new_decision example_params decision_a
          (run example_params [Open ''data'', Store_new_decision decision_a] empty_box)) = None \<and>
   get_decisions_by_contest 0
     (run example_params
        [Open ''data'', Store_new_decision decision_a, Store_new_decision decision_a]
        empty_box) = [292] \<and>
   get_decisions_by_ballot 0
     (run example_params
        [Open ''data'', Store_new_decision decision_a, Store_new_decision decision_a]
        empty_box) = [292] \<and>
   get_decisions_by_voter 0
     (run example_params
        [Open ''data'', Store_new_decision decision_a, Store_new_decision decision_a]
        empty_box) = [292] \<and>
   get_decisions_by_contest 3
     (run example_params
        [Open ''data'', Store_new_decision decision_a, Store_new_decision decision_a]
        empty_box) = [] \<and>
   get_decisions_with_write_in ''Alice Smith''
     (run example_params
        [Open ''data'', Store_new_decision decision_a, Store_new_decision decision_a]
        empty_box) = [] \<and>
   decision_digest example_params decision_a = 292"
  by code_simp


theorem storing_twice_witness:
  "reachable example_params (run example_params [Open ''data''] empty_box) \<and>
   fst (store_ballot example_params ballot_a
          (run example_params [Open ''data''] empty_box)) = None \<and>
   fst (store_contest example_params contest_a
          (run example_params [Open ''data''] empty_box)) = None \<and>
   fst (store_new_decision example_params decision_a
          (run example_params [Open ''data''] empty_box)) = None \<and>
   ballot_db (run example_params [Store_ballot ballot_a, Store_ballot ballot_a]
                (run example_params [Open ''data''] empty_box)) =
     ballot_db (run example_params [Store_ballot ballot_a]
                  (run example_params [Open ''data''] empty_box)) \<and>
   mset (get_ballots_by_contest 3
           (run example_params [Store_ballot ballot_a, Store_ballot ballot_a]
              (run example_params [Open ''data''] empty_box))) =
     mset (get_ballots_by_contest 3 (run example_params [Open ''data''] empty_box)) +
     mset (replicate (2 * count_list (contests ballot_a) 3) (ballot_id_of example_params ballot_a)) \<and>
   mset (get_contests_by_contestant ''Bob''
           (run example_params [Store_contest contest_a, Store_contest contest_a]
              (run example_params [Open ''data''] empty_box))) =
     mset (get_contests_by_contestant ''Bob'' (run example_params [Open ''data''] empty_box)) +
     mset (replicate (2 * count_list (map name (contestants contest_a)) ''Bob'')
             (contest_id_of example_params contest_a)) \<and>
   decision_index (run example_params [Store_new_decision decision_a, Store_new_decision decision_a]
                     (run example_params [Open ''data''] empty_box)) =
     decision_index (run example_params [Store_new_decision decision_a]
                       (run example_params [Open ''data''] empty_box)) \<and>
   count_list (get_decisions_by_contest 0
                 (run example_params [Store_new_decision decision_a, Store_new_decision decision_a]
                    (run example_params [Open ''data''] empty_box)))
     (decision_digest example_params decision_a) \<le> 1 \<and>
   mset (get_contests_by_tags ''type'' ''primary''
           (run example_params [Store_contest contest_a, Store_contest contest_a]
              (run example_params [Open ''data''] empty_box))) =
     mset (get_contests_by_tags ''type'' ''primary''
             (run example_params [Open ''data''] empty_box)) +
     mset (tagged_with_pair example_params ''type'' ''primary'' [contest_a, contest_a]) \<and>
   get_ballots_by_contest 3
     (run example_params [Store_ballot ballot_a, Store_ballot ballot_a]
        (run example_params [Open ''data''] empty_box)) = [2, 2] \<and>
   get_contests_by_contestant ''Bob''
     (run example_params [Store_contest contest_a, Store_contest contest_a]
        (run example_params [Open ''data''] empty_box)) = [3, 3] \<and>
   get_contests_by_tags ''type'' ''primary''
     (run example_params [Store_contest contest_a, Store_contest contest_a]
        (run example_params [Open ''data''] empty_box)) = [3, 3]"
proof -
  let ?s = "run example_params [Open ''data''] empty_box"
  have h1: "reachable example_params ?s"
    by (rule reachable_run [OF reachable_empty_box])
  have h2: "fst (store_ballot example_params ballot_a ?s) = None" by code_simp
  have h3: "fst (store_contest example_params contest_a ?s) = None" by code_simp
  have h4: "fst (store_new_decision example_params decision_a ?s) = None" by code_simp
  have h5: "''primary'' \<noteq> ([] :: string)" by simp
  have e1: "get_ballots_by_contest 3
     (run example_params [Store_ballot ballot_a, Store_ballot ballot_a] ?s) = [2, 2]"
    by code_simp
  have e2: "get_contests_by_contestant ''Bob''
     (run example_params [Store_contest contest_a, Store_contest contest_a] ?s) = [3, 3]"
    by code_simp
  have e3: "get_contests_by_tags ''type'' ''primary''
     (run example_params [Store_contest contest_a, Store_contest contest_a] ?s) = [3, 3]"
    by code_simp
  from storing_twice
         [OF h1, where b = ballot_a and ct = contest_a and d = decision_a and c = 3
            and n = "''Bob''" and k = "''type''" and v = "''primary''"]
       storing_twice
         [OF h1, where b = ballot_a and ct = contest_a and d = decision_a and c = 0
            and n = "''Bob''"]
       h1 h2 h3 h4 h5 e1 e2 e3
  show ?thesis by blast
qed

section \<open>Rebuilding the indices from the stores\<close>

text \<open>
  With \<^verbatim>\<open>ballot_box_impl::close\<close> in the place of \<^verbatim>\<open>ballot_box::close\<close>, closing and
  opening the same directory again gives back the answers of every query, as long as
  no two of the ballots, and no two of the contests, that are stored or found in the
  directory have the same id.
\<close>

lemma ctor_any: "decision_storage_record_ctor P d = decision_storage_record_ctor P default_decision"
  by (simp add: decision_storage_record_ctor_def)

lemma ctor_no_write_ins:
  "decision_storage_record_ctor P d = Inr sr \<Longrightarrow> write_in_names sr = []"
  by (auto simp: decision_storage_record_ctor_def default_decision_def split: sum.splits)

lemma for_each_reindex_ballots:
  "for_each (\<lambda>kv t. (None, update_index_ballot (fst kv) (snd kv) t)) kvs t =
     (None, t\<lparr>ballot_by_contest_index := reindex_ballots kvs (ballot_by_contest_index t)\<rparr>)"
  by (induction kvs arbitrary: t) (simp_all add: reindex_ballots_def update_index_ballot_def)

lemma for_each_reindex_contests:
  "for_each (\<lambda>kv t. (None, update_index_contest (fst kv) (snd kv) t)) kvs t =
     (None, t\<lparr>contest_by_contestant_index :=
                 reindex_contestants kvs (contest_by_contestant_index t),
               contest_tags_index := reindex_tags kvs (contest_tags_index t)\<rparr>)"
  by (induction kvs arbitrary: t)
     (simp_all add: reindex_contestants_def reindex_tags_def update_index_contest_def)

lemma for_each_reindex_decisions:
  assumes "decision_storage_record_ctor P default_decision = Inr sr"
  shows "for_each (reindex_decision P) kvs t =
           (None, t\<lparr>decision_index := reindex_decisions P kvs (decision_index t)\<rparr>)"
  using assms ctor_no_write_ins [OF assms]
  by (induction kvs arbitrary: t)
     (simp_all add: reindex_decisions_def reindex_decision_def update_index_decision_def
        ctor_any [of P "snd _"])

lemma for_each_reindex_decisions_fails:
  assumes "decision_storage_record_ctor P default_decision = Inl e"
  shows "fst (for_each (reindex_decision P) kvs t) = None \<longleftrightarrow> kvs = []"
  using assms
  by (cases kvs) (simp_all add: reindex_decision_def ctor_any [of P "snd _"])

lemma open_new_ballot_box:
  assumes "fst (open_impl P dir (new_ballot_box dd bd cd)) = None"
  shows "snd (open_impl P dir (new_ballot_box dd bd cd)) = rebuilt P dir dd bd cd"
proof (cases "decision_storage_record_ctor P default_decision")
  case (Inr sr)
  show ?thesis
    by (simp add: open_impl_def new_ballot_box_def and_then_def open_decision_db_def
        open_ballot_db_def open_contest_db_def lm_open_def lm_iterate_def
        for_each_reindex_decisions [OF Inr] for_each_reindex_ballots for_each_reindex_contests
        rebuilt_def)
next
  case (Inl e)
  have "dd (dir @ ''/decision_db'') = []"
  proof (rule ccontr)
    assume "dd (dir @ ''/decision_db'') \<noteq> []"
    then have "fst (for_each (reindex_decision P) (dd (dir @ ''/decision_db''))
                 (new_ballot_box dd bd cd
                    \<lparr>decision_db := \<lparr>opened_at = Some (dir @ ''/decision_db''), disk = dd\<rparr>\<rparr>)) \<noteq> None"
      by (simp add: for_each_reindex_decisions_fails [OF Inl])
    then have "fst (open_impl P dir (new_ballot_box dd bd cd)) \<noteq> None"
      by (auto simp: open_impl_def new_ballot_box_def and_then_def open_decision_db_def
          lm_open_def lm_iterate_def split: prod.splits option.splits)
    with assms show False by simp
  qed
  then show ?thesis
    by (simp add: open_impl_def new_ballot_box_def and_then_def open_decision_db_def
        open_ballot_db_def open_contest_db_def lm_open_def lm_iterate_def
        for_each_reindex_ballots for_each_reindex_contests
        rebuilt_def reindex_decisions_def Inl)
qed


lemma set_filter_cong_sets:
  "set xs = set ys \<Longrightarrow> set (map f (filter p xs)) = set (map f (filter p ys))"
  by auto

lemma remdups_adj_sorted_unique:
  assumes "sorted xs" and "sorted ys" and "set xs = set ys"
  shows "remdups_adj xs = remdups_adj ys"
proof (rule sorted_distinct_set_unique)
  show "sorted (remdups_adj xs)" "sorted (remdups_adj ys)" using assms by simp_all
  show "distinct (remdups_adj xs)" "distinct (remdups_adj ys)"
    using assms by (simp_all add: distinct_remdups_adj_sorted)
  show "set (remdups_adj xs) = set (remdups_adj ys)" using assms by simp
qed

lemma same_index_sets_answers:
  assumes "same_index_sets s t" and "indices_ordered s" and "indices_ordered t"
  shows "same_answers voter i k v s t"
proof -
  from assms(1) have e:
    "set (decision_index s) = set (decision_index t)"
    "write_in_index s = write_in_index t"
    "set (ballot_by_contest_index s) = set (ballot_by_contest_index t)"
    "set (contest_by_contestant_index s) = set (contest_by_contestant_index t)"
    "set (contest_tags_index s) = set (contest_tags_index t)"
    by (simp_all add: same_index_sets_def)
  from assms(2) have os:
    "sorted (map fst (ballot_by_contest_index s))"
    "sorted (map fst (contest_by_contestant_index s))"
    "sorted (map by_tags (contest_tags_index s))"
    by (simp_all add: indices_ordered_def)
  from assms(3) have ot:
    "sorted (map fst (ballot_by_contest_index t))"
    "sorted (map fst (contest_by_contestant_index t))"
    "sorted (map by_tags (contest_tags_index t))"
    by (simp_all add: indices_ordered_def)
  note ks = sorted_by_tags_imp_sorted_key [OF os(3)]
  note kt = sorted_by_tags_imp_sorted_key [OF ot(3)]
  have d: "set (get_decisions_by_key f x s) = set (get_decisions_by_key f x t)" for f :: "decision_index_record \<Rightarrow> 'k" and x
    unfolding get_decisions_by_key_def hashed_equal_range_def
    by (rule set_filter_cong_sets [OF e(1)])
  have w: "get_all_write_ins s = get_all_write_ins t"
    by (simp add: get_all_write_ins_def e(2))
  have ww: "set (get_decisions_with_write_in k s) = set (get_decisions_with_write_in k t)"
    by (simp add: get_decisions_with_write_in_def e(2))
  have b: "set (get_ballots_by_contest i s) = set (get_ballots_by_contest i t)"
    unfolding get_ballots_by_contest_def equal_range_sorted [OF os(1)] equal_range_sorted [OF ot(1)]
    by (rule set_filter_cong_sets [OF e(3)])
  have c: "set (get_contests_by_contestant k s) = set (get_contests_by_contestant k t)"
    unfolding get_contests_by_contestant_def equal_range_sorted [OF os(2)]
      equal_range_sorted [OF ot(2)]
    by (rule set_filter_cong_sets [OF e(4)])
  have tg: "set (get_contests_by_tags k v s) = set (get_contests_by_tags k v t)"
  proof (cases "v = []")
    case True
    show ?thesis
      unfolding get_contests_by_tags_def Let_def equal_range_sorted [OF ks]
        equal_range_sorted [OF kt] if_P [OF True]
      by (rule set_filter_cong_sets [OF e(5)])
  next
    case False
    show ?thesis
      unfolding get_contests_by_tags_def Let_def equal_range_sorted [OF os(3)]
        equal_range_sorted [OF ot(3)] if_not_P [OF False]
      by (rule set_filter_cong_sets [OF e(5)])
  qed
  have "set (map tag_value (filter (\<lambda>x. tag_key x = k) (contest_tags_index s))) =
        set (map tag_value (filter (\<lambda>x. tag_key x = k) (contest_tags_index t)))"
    by (rule set_filter_cong_sets [OF e(5)])
  then have "remdups_adj (map tag_value (filter (\<lambda>x. tag_key x = k) (contest_tags_index s))) =
        remdups_adj (map tag_value (filter (\<lambda>x. tag_key x = k) (contest_tags_index t)))"
    by (rule remdups_adj_sorted_unique [OF sorted_values_of_key [OF os(3)]
          sorted_values_of_key [OF ot(3)]])
  then have vt: "get_values_by_tag k s = get_values_by_tag k t"
    by (simp only: get_values_by_tag_sorted [OF os(3)] get_values_by_tag_sorted [OF ot(3)])
  show ?thesis
    unfolding same_answers_def get_decisions_by_voter_def get_decisions_by_contest_def
      get_decisions_by_ballot_def
    using d [of ix_voter voter] d [of ix_contest_id i] d [of ix_ballot_id i] w ww b c tg vt
    by simp
qed


lemma set_foldl_ordered_insert:
  "set (foldl (\<lambda>idx x. ordered_insert f (g x) idx) idx xs) = set idx \<union> g ` set xs"
  by (induction xs arbitrary: idx) (auto simp: set_ordered_insert)

lemma set_foldl_foldl_ordered_insert:
  "set (foldl (\<lambda>idx kv. foldl (\<lambda>idx x. ordered_insert f (g kv x) idx) idx (h kv)) idx kvs) =
     set idx \<union> (\<Union>kv\<in>set kvs. g kv ` set (h kv))"
proof (induction kvs arbitrary: idx)
  case Nil
  then show ?case by simp
next
  case (Cons kv kvs)
  show ?case
    by (simp add: Cons.IH set_foldl_ordered_insert [where g = "g kv"] Un_assoc)
qed

lemma set_reindex_ballots:
  "set (reindex_ballots kvs idx) =
     set idx \<union> (\<Union>e\<in>set kvs. (\<lambda>c. (c, fst e)) ` set (contests (snd e)))"
  unfolding reindex_ballots_def
  by (rule set_foldl_foldl_ordered_insert [where g = "\<lambda>kv c. (c, fst kv)" and h = "\<lambda>kv. contests (snd kv)"])

lemma set_reindex_contestants:
  "set (reindex_contestants kvs idx) =
     set idx \<union> (\<Union>e\<in>set kvs. (\<lambda>c. (name c, fst e)) ` set (contestants (snd e)))"
  unfolding reindex_contestants_def
  by (rule set_foldl_foldl_ordered_insert
        [where g = "\<lambda>kv c. (name c, fst kv)" and h = "\<lambda>kv. contestants (snd kv)"])

lemma set_reindex_tags:
  "set (reindex_tags kvs idx) =
     set idx \<union>
     (\<Union>e\<in>set kvs.
        (\<lambda>t. \<lparr>tag_key = fst t, tag_value = snd t, tag_contest_id = fst e\<rparr>) ` set (tags (snd e)))"
  unfolding reindex_tags_def
  by (rule set_foldl_foldl_ordered_insert
        [where g = "\<lambda>kv t. \<lparr>tag_key = fst t, tag_value = snd t, tag_contest_id = fst kv\<rparr>"
           and h = "\<lambda>kv. tags (snd kv)"])


lemma keyed_by_upsert: "keyed_by f es \<Longrightarrow> keyed_by f (upsert (f v) v es)"
  by (induction es) (auto simp: keyed_by_def)

lemma set_upsert_keyed:
  assumes "inj_on f A" and "keyed_by f es" and "snd ` set es \<subseteq> A" and "v \<in> A"
  shows "set (upsert (f v) v es) = insert (f v, v) (set es)"
  using assms(2,3)
proof (induction es)
  case Nil
  then show ?case by simp
next
  case (Cons e es)
  then have k: "fst e = f (snd e)" and ks: "keyed_by f es"
    and a: "snd e \<in> A" and as: "snd ` set es \<subseteq> A"
    by (simp_all add: keyed_by_def)
  show ?case
  proof (cases "f v = fst e")
    case True
    with k a assms(1,4) have "snd e = v" by (simp add: inj_on_eq_iff)
    with True have "e = (f v, v)" by (simp add: prod_eq_iff)
    with True show ?thesis by auto
  next
    case False
    with Cons.IH [OF ks as] show ?thesis by auto
  qed
qed

lemma values_upsert: "snd ` set (upsert k v es) \<subseteq> insert v (snd ` set es)"
  by (induction es) auto

lemma keys_upsert: "fst ` set (upsert k v es) = insert k (fst ` set es)"
  by (induction es) auto

lemma open_succeeds_iff:
  "fst (open_impl P dir (new_ballot_box dd bd cd)) = None \<longleftrightarrow>
     (\<exists>sr. decision_storage_record_ctor P default_decision = Inr sr) \<or>
     dd (dir @ ''/decision_db'') = []"
proof (cases "decision_storage_record_ctor P default_decision")
  case (Inr sr)
  then show ?thesis
    by (simp add: open_impl_def new_ballot_box_def and_then_def open_decision_db_def
        open_ballot_db_def open_contest_db_def lm_open_def lm_iterate_def
        for_each_reindex_decisions [OF Inr] for_each_reindex_ballots for_each_reindex_contests)
next
  case (Inl e)
  show ?thesis
  proof (cases "dd (dir @ ''/decision_db'') = []")
    case True
    then show ?thesis
      by (simp add: open_impl_def new_ballot_box_def and_then_def open_decision_db_def
          open_ballot_db_def open_contest_db_def lm_open_def lm_iterate_def
          for_each_reindex_ballots for_each_reindex_contests)
  next
    case False
    then have "fst (for_each (reindex_decision P) (dd (dir @ ''/decision_db''))
                 (new_ballot_box dd bd cd
                    \<lparr>decision_db := \<lparr>opened_at = Some (dir @ ''/decision_db''), disk = dd\<rparr>\<rparr>)) \<noteq> None"
      by (simp add: for_each_reindex_decisions_fails [OF Inl])
    then have "fst (open_impl P dir (new_ballot_box dd bd cd)) \<noteq> None"
      by (auto simp: open_impl_def new_ballot_box_def and_then_def open_decision_db_def
          lm_open_def lm_iterate_def split: prod.splits option.splits)
    with False Inl show ?thesis by simp
  qed
qed

lemma set_decision_index_insert:
  assumes "\<forall>r'\<in>set idx. ix_id r' = ix_id r \<longrightarrow> r' = r"
  shows "set (decision_index_insert r idx) = insert r (set idx)"
  using assms by (auto simp: decision_index_insert_def)

lemma set_reindex_decisions:
  assumes "decision_storage_record_ctor P default_decision = Inr sr"
    and "\<forall>r\<in>set idx. r = decision_index_record_ctor P (ix_id r) sr"
  shows "set (reindex_decisions P kvs idx) =
           set idx \<union> (\<lambda>k. decision_index_record_ctor P k sr) ` fst ` set kvs"
proof -
  have "set (foldl (\<lambda>idx kv. decision_index_insert (decision_index_record_ctor P (fst kv) sr) idx)
               idx kvs) =
        set idx \<union> (\<lambda>k. decision_index_record_ctor P k sr) ` fst ` set kvs"
    using assms(2)
  proof (induction kvs arbitrary: idx)
    case Nil
    then show ?case by simp
  next
    case (Cons kv kvs)
    let ?r = "decision_index_record_ctor P (fst kv) sr"
    have id: "ix_id ?r = fst kv" by (simp add: decision_index_record_ctor_def)
    have "\<forall>r'\<in>set idx. ix_id r' = ix_id ?r \<longrightarrow> r' = ?r"
      using Cons.prems id by metis
    then have st: "set (decision_index_insert ?r idx) = insert ?r (set idx)"
      by (rule set_decision_index_insert)
    have "\<forall>r\<in>set (decision_index_insert ?r idx). r = decision_index_record_ctor P (ix_id r) sr"
      using Cons.prems id by (auto simp: st)
    from Cons.IH [OF this] show ?case by (simp add: st)
  qed
  then show ?thesis by (simp add: reindex_decisions_def assms(1))
qed


lemma mirrors_open:
  assumes "fst (open_impl P dir (new_ballot_box dd bd cd)) = None"
    and "keyed_by (ballot_id_of P) (bd (dir @ ''/ballot_db''))"
    and "keyed_by (contest_id_of P) (cd (dir @ ''/contest_db''))"
    and "snd ` set (bd (dir @ ''/ballot_db'')) \<subseteq> B"
    and "snd ` set (cd (dir @ ''/contest_db'')) \<subseteq> C"
  shows "mirrors P dir B C (snd (open_impl P dir (new_ballot_box dd bd cd)))"
  unfolding open_new_ballot_box [OF assms(1)]
  using assms by (simp add: mirrors_def rebuilt_def same_index_sets_def)

lemma mirrors_store_ballot:
  assumes "inj_on (ballot_id_of P) B" and m: "mirrors P dir B C s" and "b \<in> B"
  shows "mirrors P dir B C (snd (store_ballot P b s))"
proof -
  let ?pb = "dir @ ''/ballot_db''"
  let ?i = "ballot_id_of P b"
  let ?bd = "disk (ballot_db s)"
  let ?bd' = "?bd(?pb := upsert ?i b (?bd ?pb))"
  let ?s' = "update_index_ballot ?i b (s\<lparr>ballot_db := (ballot_db s)\<lparr>disk := ?bd'\<rparr>\<rparr>)"
  note mm = m [unfolded mirrors_def same_index_sets_def]
  have st: "store_ballot P b s = (None, ?s')"
    using mm by (simp add: store_ballot_def store_record_ballot_def Let_def lm_store_def)
  have k: "keyed_by (ballot_id_of P) (?bd ?pb)" using mm by simp
  have sb: "snd ` set (?bd ?pb) \<subseteq> B" using mm by simp
  have sb': "snd ` set (upsert ?i b (?bd ?pb)) \<subseteq> B"
    using values_upsert [of ?i b "?bd ?pb"] sb assms(3) by auto
  let ?A = "(\<lambda>c. (c, ?i)) ` set (contests b)"
  let ?B = "\<Union>e\<in>set (?bd ?pb). (\<lambda>c. (c, fst e)) ` set (contests (snd e))"
  have l1: "set (ballot_by_contest_index ?s') = set (ballot_by_contest_index s) \<union> ?A"
    by (simp add: update_index_ballot_def set_foldl_ordered_insert [where g = "\<lambda>c. (c, ?i)"])
  have l2: "set (ballot_by_contest_index s) = ?B"
    using mm by (simp add: rebuilt_def set_reindex_ballots)
  have r: "set (reindex_ballots (?bd' ?pb) []) = ?A \<union> ?B"
    by (simp add: set_reindex_ballots set_upsert_keyed [OF assms(1) k sb assms(3)])
  have idx: "set (ballot_by_contest_index ?s') = set (reindex_ballots (?bd' ?pb) [])"
    unfolding l1 l2 r by (rule Un_commute)
  have "mirrors P dir B C ?s'"
    unfolding mirrors_def same_index_sets_def
    using mm idx keyed_by_upsert [OF k, of b] sb'
    by (simp add: update_index_ballot_def rebuilt_def open_succeeds_iff)
  then show ?thesis by (simp add: st)
qed

lemma mirrors_store_contest:
  assumes "inj_on (contest_id_of P) C" and m: "mirrors P dir B C s" and "c \<in> C"
  shows "mirrors P dir B C (snd (store_contest P c s))"
proof -
  let ?pc = "dir @ ''/contest_db''"
  let ?i = "contest_id_of P c"
  let ?cd = "disk (contest_db s)"
  let ?cd' = "?cd(?pc := upsert ?i c (?cd ?pc))"
  let ?s' = "update_index_contest ?i c (s\<lparr>contest_db := (contest_db s)\<lparr>disk := ?cd'\<rparr>\<rparr>)"
  note mm = m [unfolded mirrors_def same_index_sets_def]
  have st: "store_contest P c s = (None, ?s')"
    using mm by (simp add: store_contest_def store_record_contest_def Let_def lm_store_def)
  have k: "keyed_by (contest_id_of P) (?cd ?pc)" using mm by simp
  have sb: "snd ` set (?cd ?pc) \<subseteq> C" using mm by simp
  have sb': "snd ` set (upsert ?i c (?cd ?pc)) \<subseteq> C"
    using values_upsert [of ?i c "?cd ?pc"] sb assms(3) by auto
  let ?A1 = "(\<lambda>x. (name x, ?i)) ` set (contestants c)"
  let ?B1 = "\<Union>e\<in>set (?cd ?pc). (\<lambda>x. (name x, fst e)) ` set (contestants (snd e))"
  have l1: "set (contest_by_contestant_index ?s') = set (contest_by_contestant_index s) \<union> ?A1"
    by (simp add: update_index_contest_def
        set_foldl_ordered_insert [where g = "\<lambda>x. (name x, ?i)"])
  have l2: "set (contest_by_contestant_index s) = ?B1"
    using mm by (simp add: rebuilt_def set_reindex_contestants)
  have r: "set (reindex_contestants (?cd' ?pc) []) = ?A1 \<union> ?B1"
    by (simp add: set_reindex_contestants set_upsert_keyed [OF assms(1) k sb assms(3)])
  have idx1: "set (contest_by_contestant_index ?s') = set (reindex_contestants (?cd' ?pc) [])"
    unfolding l1 l2 r by (rule Un_commute)
  let ?A2 = "(\<lambda>t. \<lparr>tag_key = fst t, tag_value = snd t, tag_contest_id = ?i\<rparr>) ` set (tags c)"
  let ?B2 = "\<Union>e\<in>set (?cd ?pc).
               (\<lambda>t. \<lparr>tag_key = fst t, tag_value = snd t, tag_contest_id = fst e\<rparr>) `
               set (tags (snd e))"
  have m1: "set (contest_tags_index ?s') = set (contest_tags_index s) \<union> ?A2"
    by (simp add: update_index_contest_def
        set_foldl_ordered_insert
          [where g = "\<lambda>t. \<lparr>tag_key = fst t, tag_value = snd t, tag_contest_id = ?i\<rparr>"])
  have m2: "set (contest_tags_index s) = ?B2"
    using mm by (simp add: rebuilt_def set_reindex_tags)
  have r2: "set (reindex_tags (?cd' ?pc) []) = ?A2 \<union> ?B2"
    by (simp add: set_reindex_tags set_upsert_keyed [OF assms(1) k sb assms(3)])
  have idx2: "set (contest_tags_index ?s') = set (reindex_tags (?cd' ?pc) [])"
    unfolding m1 m2 r2 by (rule Un_commute)
  have "mirrors P dir B C ?s'"
    unfolding mirrors_def same_index_sets_def
    using mm idx1 idx2 keyed_by_upsert [OF k, of c] sb'
    by (simp add: update_index_contest_def rebuilt_def open_succeeds_iff)
  then show ?thesis by (simp add: st)
qed


lemma store_new_decision_failed:
  "fst (store_new_decision P d s) \<noteq> None \<Longrightarrow> snd (store_new_decision P d s) = s"
  by (auto simp: store_new_decision_def store_record_decision_def Let_def split: sum.splits)

lemma mirrors_store_new_decision:
  assumes m: "mirrors P dir B C s"
  shows "mirrors P dir B C (snd (store_new_decision P d s))"
proof (cases "decision_storage_record_ctor P default_decision")
  case (Inl e)
  then have "fst (store_new_decision P d s) \<noteq> None"
    by (simp add: store_new_decision_def store_record_decision_def Let_def ctor_any [of P d])
  then show ?thesis using m by (simp add: store_new_decision_failed)
next
  case (Inr sr)
  let ?pd = "dir @ ''/decision_db''"
  let ?i = "decision_digest P d"
  let ?dd = "disk (decision_db s)"
  let ?dd' = "?dd(?pd := upsert ?i (as_signed_voter_decision sr) (?dd ?pd))"
  let ?s' = "update_index_decision P ?i sr (s\<lparr>decision_db := (decision_db s)\<lparr>disk := ?dd'\<rparr>\<rparr>)"
  let ?r = "decision_index_record_ctor P ?i sr"
  let ?mk = "\<lambda>k. decision_index_record_ctor P k sr"
  note mm = m [unfolded mirrors_def same_index_sets_def]
  have st: "store_new_decision P d s = (None, ?s')"
    using mm Inr
    by (simp add: store_new_decision_def store_record_decision_def Let_def lm_store_def
        ctor_any [of P d])
  have old: "set (decision_index s) = ?mk ` fst ` set (?dd ?pd)"
    using mm by (simp add: rebuilt_def set_reindex_decisions [OF Inr])
  have "\<forall>r'\<in>set (decision_index s). ix_id r' = ix_id ?r \<longrightarrow> r' = ?r"
    unfolding old by (auto simp: decision_index_record_ctor_def)
  then have ins: "set (decision_index_insert ?r (decision_index s)) =
                  insert ?r (set (decision_index s))"
    by (rule set_decision_index_insert)
  have l: "set (decision_index ?s') = insert ?r (?mk ` fst ` set (?dd ?pd))"
    by (simp add: update_index_decision_def ins old)
  have r: "set (reindex_decisions P (?dd' ?pd) []) = insert ?r (?mk ` fst ` set (?dd ?pd))"
    by (simp add: set_reindex_decisions [OF Inr] keys_upsert)
  have idx: "set (decision_index ?s') = set (reindex_decisions P (?dd' ?pd) [])"
    unfolding l r ..
  have w: "write_in_index ?s' = write_in_index s"
    by (simp add: update_index_decision_def ctor_no_write_ins [OF Inr])
  have "mirrors P dir B C ?s'"
    unfolding mirrors_def same_index_sets_def
    using mm idx w Inr
    by (simp add: update_index_decision_def rebuilt_def open_succeeds_iff)
  then show ?thesis by (simp add: st)
qed

lemma mirrors_run_stores:
  assumes "inj_on (ballot_id_of P) B" and "inj_on (contest_id_of P) C"
  shows "mirrors P dir B C s \<Longrightarrow> list_all (stores_from B C) cs \<Longrightarrow>
         mirrors P dir B C (run P cs s)"
proof (induction cs arbitrary: s)
  case Nil
  then show ?case by simp
next
  case (Cons c cs)
  from Cons.prems have "mirrors P dir B C (snd (perform P c s))"
    by (cases c)
       (simp_all add: mirrors_store_new_decision mirrors_store_ballot [OF assms(1)]
          mirrors_store_contest [OF assms(2)])
  with Cons show ?case by simp
qed

lemma indices_ordered_run: "indices_ordered s \<Longrightarrow> indices_ordered (run P cs s)"
  by (induction cs arbitrary: s) (simp_all add: indices_ordered_perform)

lemma close_impl_mirrors:
  assumes "mirrors P dir B C s"
  shows "close_impl s =
           (None, new_ballot_box (disk (decision_db s)) (disk (ballot_db s)) (disk (contest_db s)))"
  using assms
  by (cases s, cases "decision_db s", cases "ballot_db s", cases "contest_db s")
     (simp add: mirrors_def close_impl_def close_db_def and_then_def lm_close_def
        clear_impl_def clear_indices_def new_ballot_box_def)

lemma rebuild_after_close_impl:
  assumes "inj_on (ballot_id_of P) B" and "inj_on (contest_id_of P) C"
    and "keyed_by (ballot_id_of P) (bd (dir @ ''/ballot_db''))"
    and "keyed_by (contest_id_of P) (cd (dir @ ''/contest_db''))"
    and "snd ` set (bd (dir @ ''/ballot_db'')) \<subseteq> B"
    and "snd ` set (cd (dir @ ''/contest_db'')) \<subseteq> C"
    and "fst (open_impl P dir (new_ballot_box dd bd cd)) = None"
    and "list_all (stores_from B C) calls"
  shows "fst (close_impl (run P calls (snd (open_impl P dir (new_ballot_box dd bd cd))))) = None"
    and "fst (open_impl P dir
           (snd (close_impl (run P calls (snd (open_impl P dir (new_ballot_box dd bd cd))))))) =
         None"
    and "same_answers voter i k v
           (run P calls (snd (open_impl P dir (new_ballot_box dd bd cd))))
           (snd (open_impl P dir
              (snd (close_impl (run P calls (snd (open_impl P dir (new_ballot_box dd bd cd))))))))"
proof -
  let ?s1 = "snd (open_impl P dir (new_ballot_box dd bd cd))"
  let ?s = "run P calls ?s1"
  let ?nb = "new_ballot_box (disk (decision_db ?s)) (disk (ballot_db ?s)) (disk (contest_db ?s))"
  have "mirrors P dir B C ?s1" using assms(7,3,4,5,6) by (rule mirrors_open)
  then have m: "mirrors P dir B C ?s"
    using assms(8) by (rule mirrors_run_stores [OF assms(1,2)])
  have cl: "close_impl ?s = (None, ?nb)" using m by (rule close_impl_mirrors)
  have op: "fst (open_impl P dir ?nb) = None" using m by (simp add: mirrors_def)
  have rb: "snd (open_impl P dir ?nb) =
              rebuilt P dir (disk (decision_db ?s)) (disk (ballot_db ?s)) (disk (contest_db ?s))"
    using op by (rule open_new_ballot_box)
  have o0: "indices_ordered (new_ballot_box x y z)" for x y z
    by (simp add: indices_ordered_def new_ballot_box_def)
  have os: "indices_ordered ?s"
    by (intro indices_ordered_run indices_ordered_open_impl o0)
  have ot: "indices_ordered (snd (open_impl P dir ?nb))"
    by (intro indices_ordered_open_impl o0)
  have "same_index_sets ?s (snd (open_impl P dir ?nb))"
    using m by (simp add: rb mirrors_def)
  then have sa: "same_answers voter i k v ?s (snd (open_impl P dir ?nb))"
    using os ot by (rule same_index_sets_answers)
  show "fst (close_impl ?s) = None" by (simp add: cl)
  show "fst (open_impl P dir (snd (close_impl ?s))) = None" by (simp add: cl op)
  show "same_answers voter i k v ?s (snd (open_impl P dir (snd (close_impl ?s))))"
    using sa by (simp add: cl)
qed

lemma rebuild_after_close_impl_example:
  "same_answers 0 3 ''region'' ''north''
     (run example_params
        [Store_contest contest_a, Store_ballot ballot_a, Store_new_decision decision_a]
        (snd (open_impl example_params ''data'' empty_box)))
     (snd (open_impl example_params ''data''
        (snd (close_impl
           (run example_params
              [Store_contest contest_a, Store_ballot ballot_a, Store_new_decision decision_a]
              (snd (open_impl example_params ''data'' empty_box)))))))"
  unfolding empty_box_def
proof (rule rebuild_after_close_impl(3) [where B = "{ballot_a}" and C = "{contest_a}"])
  show "fst (open_impl example_params ''data'' (new_ballot_box (\<lambda>_. []) (\<lambda>_. []) (\<lambda>_. []))) = None"
    by (simp add: open_succeeds_iff)
qed (simp_all add: keyed_by_def)

lemma ballot_box_close_answers: "same_answers voter i k v s (snd (ballot_box_close s))"
  by (simp add: same_answers_def ballot_box_close_def close_db_def get_decisions_by_voter_def
      get_decisions_by_contest_def get_decisions_by_ballot_def get_decisions_by_key_def
      get_all_write_ins_def get_decisions_with_write_in_def get_ballots_by_contest_def
      get_values_by_tag_def get_contests_by_tags_def get_contests_by_contestant_def
      split: sum.splits)

lemma run_close_open:
  assumes "databases_open s"
  shows "run P [Close, Open dir] s = snd (ballot_box_close s)"
  using assms by (simp add: open_after_ballot_box_close)

text \<open>
  C3 (after any stores, a close and a re-open of the same directory, each of the
  queries returns the same set as before the close; the rebuild at open gives the
  index state that the stores gave). The theorem has two parts. First, through
  \<^verbatim>\<open>ballot_box::close\<close> and \<^verbatim>\<open>ballot_box::open\<close>: after a successful open and any
  stores, the close leaves every index as it is, the re-open returns AlreadyOpen
  and changes nothing, and every query answers after the two calls what it answered
  before them. Second, where the rebuild runs, that is after \<^verbatim>\<open>ballot_box_impl::close\<close>:
  for a ballot box opened on stores keyed by the ids of their records, and stores of
  ballots and contests among which no two have the same id, the close and the
  re-open succeed, and every query answers on the rebuilt indices what it answered
  before the close.
\<close>

theorem close_and_reopen_same_answers:
  "(fst (ballot_box_open P dir s0) = None \<and> list_all is_store calls \<longrightarrow>
      fst (ballot_box_open P dir
             (snd (ballot_box_close (run P calls (snd (ballot_box_open P dir s0)))))) =
        Some AlreadyOpen \<and>
      same_answers voter i k v
        (run P calls (snd (ballot_box_open P dir s0)))
        (run P [Close, Open dir] (run P calls (snd (ballot_box_open P dir s0))))) \<and>
   (inj_on (ballot_id_of P) B \<and> inj_on (contest_id_of P) C \<and>
    keyed_by (ballot_id_of P) (bd (dir @ ''/ballot_db'')) \<and>
    keyed_by (contest_id_of P) (cd (dir @ ''/contest_db'')) \<and>
    snd ` set (bd (dir @ ''/ballot_db'')) \<subseteq> B \<and>
    snd ` set (cd (dir @ ''/contest_db'')) \<subseteq> C \<and>
    fst (ballot_box_open P dir (new_ballot_box dd bd cd)) = None \<and>
    list_all (stores_from B C) calls \<longrightarrow>
      fst (close_impl (run P calls (snd (ballot_box_open P dir (new_ballot_box dd bd cd))))) =
        None \<and>
      fst (ballot_box_open P dir
             (snd (close_impl
                (run P calls (snd (ballot_box_open P dir (new_ballot_box dd bd cd))))))) =
        None \<and>
      same_answers voter i k v
        (run P calls (snd (ballot_box_open P dir (new_ballot_box dd bd cd))))
        (snd (ballot_box_open P dir
           (snd (close_impl
              (run P calls (snd (ballot_box_open P dir (new_ballot_box dd bd cd)))))))))"
proof (intro conjI impI)
  assume h: "fst (ballot_box_open P dir s0) = None \<and> list_all is_store calls"
  let ?s = "run P calls (snd (ballot_box_open P dir s0))"
  from h have "fully_open ?s"
    by (simp add: open_impl_fully_open fully_open_run_stores)
  then have o: "databases_open ?s" by (simp add: fully_open_def)
  show "fst (ballot_box_open P dir (snd (ballot_box_close ?s))) = Some AlreadyOpen"
    by (simp add: open_after_ballot_box_close [OF o])
  show "same_answers voter i k v ?s (run P [Close, Open dir] ?s)"
    unfolding run_close_open [OF o] by (rule ballot_box_close_answers)
next
  assume h: "inj_on (ballot_id_of P) B \<and> inj_on (contest_id_of P) C \<and>
    keyed_by (ballot_id_of P) (bd (dir @ ''/ballot_db'')) \<and>
    keyed_by (contest_id_of P) (cd (dir @ ''/contest_db'')) \<and>
    snd ` set (bd (dir @ ''/ballot_db'')) \<subseteq> B \<and>
    snd ` set (cd (dir @ ''/contest_db'')) \<subseteq> C \<and>
    fst (ballot_box_open P dir (new_ballot_box dd bd cd)) = None \<and>
    list_all (stores_from B C) calls"
  then have a: "inj_on (ballot_id_of P) B" "inj_on (contest_id_of P) C"
    "keyed_by (ballot_id_of P) (bd (dir @ ''/ballot_db''))"
    "keyed_by (contest_id_of P) (cd (dir @ ''/contest_db''))"
    "snd ` set (bd (dir @ ''/ballot_db'')) \<subseteq> B"
    "snd ` set (cd (dir @ ''/contest_db'')) \<subseteq> C"
    "fst (open_impl P dir (new_ballot_box dd bd cd)) = None"
    "list_all (stores_from B C) calls"
    by (simp_all add: ballot_box_open_def)
  note r = rebuild_after_close_impl [OF a]
  show "fst (close_impl (run P calls (snd (ballot_box_open P dir (new_ballot_box dd bd cd))))) =
        None"
    using r(1) by (simp add: ballot_box_open_def)
  show "fst (ballot_box_open P dir
             (snd (close_impl
                (run P calls (snd (ballot_box_open P dir (new_ballot_box dd bd cd))))))) =
        None"
    using r(2) by (simp add: ballot_box_open_def)
  show "same_answers voter i k v
        (run P calls (snd (ballot_box_open P dir (new_ballot_box dd bd cd))))
        (snd (ballot_box_open P dir
           (snd (close_impl
              (run P calls (snd (ballot_box_open P dir (new_ballot_box dd bd cd))))))))"
    using r(3) [of voter i k v] by (simp add: ballot_box_open_def)
qed

theorem close_and_reopen_same_answers_witness:
  "fst (ballot_box_open example_params ''data'' empty_box) = None \<and>
   list_all is_store
     [Store_contest contest_a, Store_ballot ballot_a, Store_new_decision decision_a] \<and>
   inj_on (ballot_id_of example_params) {ballot_a} \<and>
   inj_on (contest_id_of example_params) {contest_a} \<and>
   list_all (stores_from {ballot_a} {contest_a})
     [Store_contest contest_a, Store_ballot ballot_a, Store_new_decision decision_a] \<and>
   fst (ballot_box_open example_params ''data''
          (snd (ballot_box_close
             (run example_params
                [Store_contest contest_a, Store_ballot ballot_a, Store_new_decision decision_a]
                (snd (ballot_box_open example_params ''data'' empty_box)))))) =
     Some AlreadyOpen \<and>
   same_answers 0 3 ''region'' ''north''
     (run example_params
        [Store_contest contest_a, Store_ballot ballot_a, Store_new_decision decision_a]
        (snd (ballot_box_open example_params ''data'' empty_box)))
     (run example_params [Close, Open ''data'']
        (run example_params
           [Store_contest contest_a, Store_ballot ballot_a, Store_new_decision decision_a]
           (snd (ballot_box_open example_params ''data'' empty_box)))) \<and>
   fst (close_impl
          (run example_params
             [Store_contest contest_a, Store_ballot ballot_a, Store_new_decision decision_a]
             (snd (ballot_box_open example_params ''data'' empty_box)))) = None \<and>
   fst (ballot_box_open example_params ''data''
          (snd (close_impl
             (run example_params
                [Store_contest contest_a, Store_ballot ballot_a, Store_new_decision decision_a]
                (snd (ballot_box_open example_params ''data'' empty_box)))))) = None \<and>
   same_answers 0 3 ''region'' ''north''
     (run example_params
        [Store_contest contest_a, Store_ballot ballot_a, Store_new_decision decision_a]
        (snd (ballot_box_open example_params ''data'' empty_box)))
     (snd (ballot_box_open example_params ''data''
        (snd (close_impl
           (run example_params
              [Store_contest contest_a, Store_ballot ballot_a, Store_new_decision decision_a]
              (snd (ballot_box_open example_params ''data'' empty_box))))))) \<and>
   get_ballots_by_contest 3
     (snd (ballot_box_open example_params ''data''
        (snd (close_impl
           (run example_params
              [Store_contest contest_a, Store_ballot ballot_a, Store_new_decision decision_a]
              (snd (ballot_box_open example_params ''data'' empty_box))))))) = [2] \<and>
   get_ballots_by_contest 3
     (run example_params [Close, Open ''data'']
        (run example_params
           [Store_contest contest_a, Store_ballot ballot_a, Store_new_decision decision_a]
           (snd (ballot_box_open example_params ''data'' empty_box)))) = [2]"
proof -
  let ?calls = "[Store_contest contest_a, Store_ballot ballot_a, Store_new_decision decision_a]"
  have h1: "fst (ballot_box_open example_params ''data'' empty_box) = None"
    by code_simp
  have h2: "list_all is_store ?calls"
    by simp
  have h3: "inj_on (ballot_id_of example_params) {ballot_a}"
    "inj_on (contest_id_of example_params) {contest_a}"
    by simp_all
  have h4: "keyed_by (ballot_id_of example_params) ((\<lambda>_. []) (''data'' @ ''/ballot_db''))"
    "keyed_by (contest_id_of example_params) ((\<lambda>_. []) (''data'' @ ''/contest_db''))"
    "snd ` set ((\<lambda>_. []) (''data'' @ ''/ballot_db'')) \<subseteq> {ballot_a}"
    "snd ` set ((\<lambda>_. []) (''data'' @ ''/contest_db'')) \<subseteq> {contest_a}"
    by (simp_all add: keyed_by_def)
  have h5: "list_all (stores_from {ballot_a} {contest_a}) ?calls"
    by simp
  have h6: "fst (ballot_box_open example_params ''data''
                   (new_ballot_box (\<lambda>_. []) (\<lambda>_. []) (\<lambda>_. []))) = None"
    using h1 by (simp add: empty_box_def)
  have e1: "get_ballots_by_contest 3
     (snd (ballot_box_open example_params ''data''
        (snd (close_impl
           (run example_params ?calls
              (snd (ballot_box_open example_params ''data'' empty_box))))))) = [2]"
    by code_simp
  have e2: "get_ballots_by_contest 3
     (run example_params [Close, Open ''data'']
        (run example_params ?calls
           (snd (ballot_box_open example_params ''data'' empty_box)))) = [2]"
    by code_simp
  note t = close_and_reopen_same_answers
    [where P = example_params and dir = "''data''" and ?s0.0 = empty_box and calls = ?calls
       and voter = 0 and i = 3 and k = "''region''" and v = "''north''"
       and B = "{ballot_a}" and C = "{contest_a}"
       and dd = "\<lambda>_. []" and bd = "\<lambda>_. []" and cd = "\<lambda>_. []"]
  from t h1 h2 h3 h4 h5 h6 e1 e2 show ?thesis
    unfolding empty_box_def by blast
qed

end
